theory Spec2Isabelle
  imports Main "HOL-Library.Word" "HOL-Library.Sublist"
begin

section \<open>simplemigrate: data model\<close>

text \<open>
  A shallow embedding of package \<open>simplemigrate\<close> (the migrator: \<open>Migrate\<close>,
  \<open>readMigrations\<close>, \<open>validate\<close>, \<open>listFiles\<close>, \<open>computeHash\<close>).

  Go strings and byte slices are \<^typ>\<open>string\<close> (lists of 8-bit characters, i.e. bytes).
  Go's \<open>int\<close> is the 64-bit signed integer of the common platforms, a \<^typ>\<open>64 word\<close> read
  with \<^const>\<open>sint\<close>. The \<open>context.Context\<close> argument carries no data the migrator
  reads and is left out, as is the text printed on standard output. The time
  \<open>AppliedAt\<close>, which the migrator never reads, is kept as text.
\<close>

text \<open>
  Error values. The five sentinels of the package are constructors; \<open>Foreign\<close> is an
  error value made outside the package (by the store, the file system or the validator),
  carrying its text; \<open>Errorf text e\<close> is the result of \<open>fmt.Errorf\<close> with one \<open>%w\<close>
  verb: the formatted text and the wrapped error \<open>e\<close>. \<open>Panic\<close> stands for a run-time
  panic (an index out of range), which is no error value in Go.
\<close>

datatype error =
    ErrMigrationTableNameMissing
  | ErrUnknownDriver
  | ErrInvalidMigrationFile
  | ErrMigrationFolder
  | ErrInvalidQuery
  | Foreign string
  | Errorf string error
  | Panic string

fun Error :: "error \<Rightarrow> string" where
  "Error ErrMigrationTableNameMissing = ''migrations table name cannot be empty''"
| "Error ErrUnknownDriver = ''unknown driver''"
| "Error ErrInvalidMigrationFile = ''invalid migration file''"
| "Error ErrMigrationFolder = ''invalid migration folder''"
| "Error ErrInvalidQuery = ''invalid query''"
| "Error (Foreign s) = s"
| "Error (Errorf s e) = s"
| "Error (Panic s) = s"

text \<open>\<open>errors.Is\<close>: the error or one it wraps is the target.\<close>

fun errorsIs :: "error \<Rightarrow> error \<Rightarrow> bool" where
  "errorsIs (Errorf s e) target = (Errorf s e = target \<or> errorsIs e target)"
| "errorsIs e target = (e = target)"

text \<open>\<open>fmt.Errorf("%w: %s", e, msg)\<close>\<close>

definition Errorf_w_s :: "error \<Rightarrow> string \<Rightarrow> error" where
  "Errorf_w_s e msg = Errorf (Error e @ '': '' @ msg) e"

record Migration =
  Version :: "64 word"
  Fname :: string
  AppliedAt :: "string option"
  Statements :: "string list"
  Hash :: string

section \<open>Library functions the migrator calls\<close>

subsection \<open>White space\<close>

text \<open>
  The UTF-8 encodings of the runes that \<open>unicode.IsSpace\<close> (used by \<open>bytes.TrimSpace\<close>)
  and the table \<open>space\<close> of package \<open>fmt\<close> (used by \<open>Sscanf\<close>) accept: U+0009..U+000D,
  U+0020, U+0085, U+00A0, U+1680, U+2000..U+200A, U+2028, U+2029, U+202F, U+205F, U+3000.
  UTF-8 decoding yields one of these runes exactly on these byte sequences.
\<close>

definition spaceRunes :: "string list" where
  "spaceRunes =
     [[CHR 0x09], [CHR 0x0A], [CHR 0x0B], [CHR 0x0C], [CHR 0x0D], [CHR 0x20],
      [CHR 0xC2, CHR 0x85], [CHR 0xC2, CHR 0xA0],
      [CHR 0xE1, CHR 0x9A, CHR 0x80],
      [CHR 0xE2, CHR 0x80, CHR 0x80], [CHR 0xE2, CHR 0x80, CHR 0x81],
      [CHR 0xE2, CHR 0x80, CHR 0x82], [CHR 0xE2, CHR 0x80, CHR 0x83],
      [CHR 0xE2, CHR 0x80, CHR 0x84], [CHR 0xE2, CHR 0x80, CHR 0x85],
      [CHR 0xE2, CHR 0x80, CHR 0x86], [CHR 0xE2, CHR 0x80, CHR 0x87],
      [CHR 0xE2, CHR 0x80, CHR 0x88], [CHR 0xE2, CHR 0x80, CHR 0x89],
      [CHR 0xE2, CHR 0x80, CHR 0x8A],
      [CHR 0xE2, CHR 0x80, CHR 0xA8], [CHR 0xE2, CHR 0x80, CHR 0xA9],
      [CHR 0xE2, CHR 0x80, CHR 0xAF],
      [CHR 0xE2, CHR 0x81, CHR 0x9F],
      [CHR 0xE3, CHR 0x80, CHR 0x80]]"

text \<open>The white-space rune a byte string starts with, and the one it ends with.\<close>

definition leadingSpace :: "string \<Rightarrow> string option" where
  "leadingSpace s = find (\<lambda>p. prefix p s) spaceRunes"

definition trailingSpace :: "string \<Rightarrow> string option" where
  "trailingSpace s = find (\<lambda>p. suffix p s) spaceRunes"

lemma spaceRunes_nonempty: "p \<in> set spaceRunes \<Longrightarrow> p \<noteq> []"
  by (auto simp: spaceRunes_def)

lemma leadingSpace_Some: "leadingSpace s = Some p \<Longrightarrow> p \<noteq> [] \<and> prefix p s \<and> p \<in> set spaceRunes"
  unfolding leadingSpace_def
  by (auto simp: find_Some_iff spaceRunes_nonempty)

lemma trailingSpace_Some: "trailingSpace s = Some p \<Longrightarrow> p \<noteq> [] \<and> suffix p s \<and> p \<in> set spaceRunes"
  unfolding trailingSpace_def
  by (auto simp: find_Some_iff spaceRunes_nonempty)

subsection \<open>\<open>bytes.TrimSpace\<close>\<close>

function TrimLeftSpace :: "string \<Rightarrow> string" where
  "TrimLeftSpace s =
     (case leadingSpace s of
        None \<Rightarrow> s
      | Some p \<Rightarrow> TrimLeftSpace (drop (length p) s))"
  by pat_completeness auto
termination
proof (relation "measure length")
  show "wf (measure length)" by simp
next
  fix s p assume "leadingSpace s = Some p"
  then have "p \<noteq> []" "prefix p s" using leadingSpace_Some by blast+
  then have "s \<noteq> []" by auto
  with \<open>p \<noteq> []\<close> show "(drop (length p) s, s) \<in> measure length" by simp
qed

function TrimRightSpace :: "string \<Rightarrow> string" where
  "TrimRightSpace s =
     (case trailingSpace s of
        None \<Rightarrow> s
      | Some p \<Rightarrow> TrimRightSpace (take (length s - length p) s))"
  by pat_completeness auto
termination
proof (relation "measure length")
  show "wf (measure length)" by simp
next
  fix s p assume "trailingSpace s = Some p"
  then have "p \<noteq> []" "suffix p s" using trailingSpace_Some by blast+
  then have "s \<noteq> []" by auto
  with \<open>p \<noteq> []\<close> show "(take (length s - length p) s, s) \<in> measure length" by simp
qed

declare TrimLeftSpace.simps [simp del] TrimRightSpace.simps [simp del]

definition TrimSpace :: "string \<Rightarrow> string" where
  "TrimSpace s = TrimRightSpace (TrimLeftSpace s)"

subsection \<open>\<open>strings.Index\<close>, \<open>strings.HasSuffix\<close>, \<open>strings.Split\<close>\<close>

text \<open>\<open>strings.Index(s, sub)\<close>: the least index at which \<open>sub\<close> occurs; \<open>None\<close> is Go's -1.\<close>

fun stringsIndex :: "string \<Rightarrow> string \<Rightarrow> nat option" where
  "stringsIndex [] sub = (if sub = [] then Some 0 else None)"
| "stringsIndex (c # t) sub =
     (if prefix sub (c # t) then Some 0 else map_option Suc (stringsIndex t sub))"

definition HasSuffix :: "string \<Rightarrow> string \<Rightarrow> bool" where
  "HasSuffix s suf = suffix suf s"

lemma stringsIndex_bound: "stringsIndex s sub = Some m \<Longrightarrow> m + length sub \<le> length s"
proof (induction s arbitrary: m)
  case Nil
  then show ?case by (simp split: if_splits)
next
  case (Cons c t)
  show ?case
  proof (cases "prefix sub (c # t)")
    case True
    with Cons.prems have "m = 0" by simp
    with prefix_length_le [OF True] show ?thesis by simp
  next
    case False
    with Cons.prems obtain k where "stringsIndex t sub = Some k" "m = Suc k" by auto
    with Cons.IH show ?thesis by fastforce
  qed
qed

text \<open>The statement separator of a migration file.\<close>

definition migrateNext :: string where
  "migrateNext = ''-- migrate:next''"

text \<open>
  \<open>strings.Split(s, "-- migrate:next")\<close>: the pieces of \<open>s\<close> between the successive,
  non-overlapping occurrences of the separator, found from the left.
\<close>

function Split :: "string \<Rightarrow> string list" where
  "Split s =
     (case stringsIndex s migrateNext of
        None \<Rightarrow> [s]
      | Some m \<Rightarrow> take m s # Split (drop (m + length migrateNext) s))"
  by pat_completeness auto
termination
proof (relation "measure length")
  show "wf (measure length)" by simp
next
  fix s m assume "stringsIndex s migrateNext = Some m"
  then have "m + length migrateNext \<le> length s" by (rule stringsIndex_bound)
  moreover have "length migrateNext = 15" by (simp add: migrateNext_def)
  ultimately show "(drop (m + length migrateNext) s, s) \<in> measure length" by simp
qed

declare Split.simps [simp del]

subsection \<open>\<open>fmt.Sscanf(str, "%d", &v)\<close>\<close>

text \<open>
  The scan skips leading white space (a newline is an error), takes an optional sign and
  then the longest run of decimal digits, which must not be empty, and hands the token to
  \<open>strconv.ParseInt(tok, 10, 64)\<close>. Input after the digits is left unread and is no error.
  Any error makes \<open>Sscanf\<close> return a non-nil error, whose text the migrator does not use.
  (The scanner also stops after \<open>2^30\<close> runes, far beyond the length of a file name; this
  limit is left out.)
\<close>

function SkipSpace :: "string \<Rightarrow> error + string" where
  "SkipSpace s =
     (case leadingSpace s of
        None \<Rightarrow> Inr s
      | Some p \<Rightarrow>
          if p = [CHR 0x0A] then Inl (Foreign ''unexpected newline'')
          else SkipSpace (drop (length p) s))"
  by pat_completeness auto
termination
proof (relation "measure length")
  show "wf (measure length)" by simp
next
  fix s p assume "leadingSpace s = Some p"
  then have "p \<noteq> []" "prefix p s" using leadingSpace_Some by blast+
  then have "s \<noteq> []" by auto
  with \<open>p \<noteq> []\<close> show "(drop (length p) s, s) \<in> measure length" by simp
qed

declare SkipSpace.simps [simp del]

definition isDigit :: "char \<Rightarrow> bool" where
  "isDigit c \<longleftrightarrow> c \<in> set ''0123456789''"

definition isSign :: "char \<Rightarrow> bool" where
  "isSign c \<longleftrightarrow> c \<in> set ''+-''"

text \<open>
  \<open>strconv.ParseInt(tok, 10, 64)\<close>: an optional sign, then decimal digits only; the value
  must lie in \<open>[-2^63, 2^63)\<close>.
\<close>

definition ParseInt :: "string \<Rightarrow> error + 64 word" where
  "ParseInt tok =
     (let neg = (tok \<noteq> [] \<and> hd tok = CHR ''-'');
          ds = (if tok \<noteq> [] \<and> isSign (hd tok) then tl tok else tok);
          un = foldl (\<lambda>a c. 10 * a + (of_char c - 48)) (0 :: int) ds
      in if ds = [] \<or> \<not> list_all isDigit ds then Inl (Foreign ''invalid syntax'')
         else if \<not> neg \<and> 2 ^ 63 \<le> un then Inl (Foreign ''value out of range'')
         else if neg \<and> 2 ^ 63 < un then Inl (Foreign ''value out of range'')
         else Inr (word_of_int (if neg then - un else un)))"

definition Sscanf_d :: "string \<Rightarrow> error + 64 word" where
  "Sscanf_d str =
     (case SkipSpace str of
        Inl err \<Rightarrow> Inl err
      | Inr s \<Rightarrow>
          if s = [] then Inl (Foreign ''unexpected EOF'')
          else
            let sgn = (if isSign (hd s) then [hd s] else []);
                s1 = (if isSign (hd s) then tl s else s)
            in if s1 = [] then Inl (Foreign ''unexpected EOF'')
               else if \<not> isDigit (hd s1) then Inl (Foreign ''expected integer'')
               else ParseInt (sgn @ takeWhile isDigit s1))"

subsection \<open>\<open>computeHash\<close>\<close>

text \<open>
  \<open>fmt.Sprintf("%x", b)\<close> on a byte array: two lower-case hexadecimal digits per byte.
\<close>

definition hexDigit :: "nat \<Rightarrow> char" where
  "hexDigit n = ''0123456789abcdef'' ! (n mod 16)"

definition Sprintf_x :: "string \<Rightarrow> string" where
  "Sprintf_x b = concat (map (\<lambda>c. [hexDigit (of_char c div 16), hexDigit (of_char c)]) b)"

text \<open>
  \<open>computeHash\<close>. The digest function \<open>sha256.Sum256\<close> of Go's standard library is the
  parameter \<open>Sum256\<close>.
\<close>

definition computeHash :: "(string \<Rightarrow> string) \<Rightarrow> string \<Rightarrow> string" where
  "computeHash Sum256 b = (let hash = Sum256 b in Sprintf_x hash)"

section \<open>Collaborators\<close>

text \<open>
  The migrator talks to three collaborators through interfaces: the file system
  (\<open>fs.FS\<close>), the store (\<open>DBDriver\<close>) and the optional \<open>QueryValidator\<close>. Every call on
  a collaborator is recorded in a log, in the order it is made, with its arguments. For the
  two calls of the validation loop, which are repeated within a run, the log holds the
  answer as well: the dialect the store declared, and what the validator reported.
\<close>

datatype call =
    CallReadDir string
  | CallReadFile string
  | CallCreateMigrationsTable string
  | CallSelectMigrations string
  | CallApplyMigrations string bool "Migration list"
  | CallDialect string
  | CallValidateQuery string string "error option"

text \<open>
  The file system is read-only data: \<open>fs.ReadDir\<close> and \<open>fs.ReadFile\<close> are functions of
  the path.
\<close>

record DirEntry =
  Name :: string
  IsDir :: bool

record FS =
  ReadDir :: "string \<Rightarrow> error + DirEntry list"
  ReadFile :: "string \<Rightarrow> error + string"

text \<open>
  The store and the validator have state of their own. Each of their methods takes, besides
  its arguments, the log of the calls made before it in the run, so that an answer may
  depend on everything that happened so far.
\<close>

record DBDriver =
  Dialect :: "call list \<Rightarrow> string"
  CreateMigrationsTable :: "call list \<Rightarrow> string \<Rightarrow> error option"
  SelectMigrations :: "call list \<Rightarrow> string \<Rightarrow> error + Migration list"
  ApplyMigrations :: "call list \<Rightarrow> string \<Rightarrow> bool \<Rightarrow> Migration list \<Rightarrow> error option"

record QueryValidator =
  ValidateQuery :: "call list \<Rightarrow> string \<Rightarrow> string \<Rightarrow> error option"

record Migrator =
  driver :: DBDriver
  migrationsTable :: string
  folder :: FS
  qvalidator :: "QueryValidator option"
  inTransaction :: bool

section \<open>The migrator\<close>

text \<open>
  A function with effects takes the log of calls so far and returns the extended log with
  its result.
\<close>

subsection \<open>\<open>listFiles\<close>\<close>

fun listEntries :: "DirEntry list \<Rightarrow> string list \<Rightarrow> error + string list" where
  "listEntries [] files = Inr files"
| "listEntries (entry # entries) files =
     (if IsDir entry then Inl (Errorf_w_s ErrMigrationFolder ''cannot contain a folder'')
      else if \<not> HasSuffix (Name entry) ''.sql''
        then Inl (Errorf_w_s ErrInvalidMigrationFile (Name entry @ '' must have .sql extension''))
      else listEntries entries (files @ [Name entry]))"

definition listFiles :: "FS \<Rightarrow> string \<Rightarrow> call list \<Rightarrow> call list \<times> (error + string list)" where
  "listFiles fsys dir t =
     (let t1 = t @ [CallReadDir dir]
      in case ReadDir fsys dir of
           Inl err \<Rightarrow> (t1, Inl err)
         | Inr entries \<Rightarrow> (t1, listEntries entries []))"

subsection \<open>\<open>readMigrations\<close>\<close>

text \<open>The loop over the files.\<close>

fun readFiles ::
  "(string \<Rightarrow> string) \<Rightarrow> FS \<Rightarrow> string list \<Rightarrow> Migration list \<Rightarrow> call list
     \<Rightarrow> call list \<times> (error + Migration list)" where
  "readFiles Sum256 fsys [] items t = (t, Inr items)"
| "readFiles Sum256 fsys (file # files) items t =
     (case stringsIndex file ''_'' of
        None \<Rightarrow> (t, Inl (Errorf_w_s ErrInvalidMigrationFile (file @ '' must have a version'')))
      | Some idx \<Rightarrow>
         (case Sscanf_d (take idx file) of
            Inl err \<Rightarrow>
              (t, Inl (Errorf_w_s ErrInvalidMigrationFile (file @ '' must have an integer version'')))
          | Inr version \<Rightarrow>
              if version = 0
              then (t, Inl (Errorf_w_s ErrInvalidMigrationFile (file @ '' must have a non-zero version'')))
              else
                (let t1 = t @ [CallReadFile file]
                 in case ReadFile fsys file of
                      Inl err \<Rightarrow> (t1, Inl err)
                    | Inr data \<Rightarrow>
                        (let data = TrimSpace data;
                             migration = \<lparr>Version = version, Fname = file, AppliedAt = None,
                                          Statements = Split data,
                                          Hash = computeHash Sum256 data\<rparr>
                         in readFiles Sum256 fsys files (items @ [migration]) t1))))"

text \<open>
  \<open>sort.Slice\<close> with the order of the versions. Go promises a sorted permutation and no
  stability; the model is the insertion sort of the library, which is stable.
\<close>

definition sortSlice :: "Migration list \<Rightarrow> Migration list" where
  "sortSlice items = sort_key (\<lambda>m. sint (Version m)) items"

text \<open>The loop \<open>for i := 1; i < len(items); i++\<close> over neighbours.\<close>

fun sequential :: "Migration list \<Rightarrow> error option" where
  "sequential (prev # cur # items) =
     (if Version cur - Version prev \<noteq> 1
      then Some (Errorf (Error ErrInvalidMigrationFile @ '': ''
                          @ ''migrations must have sequential versions''
                          @ '' ('' @ Fname prev @ '' - '' @ Fname cur @ '')'')
                   ErrInvalidMigrationFile)
      else sequential (cur # items))"
| "sequential items = None"

definition readMigrations ::
  "(string \<Rightarrow> string) \<Rightarrow> Migrator \<Rightarrow> call list \<Rightarrow> call list \<times> (error + Migration list)" where
  "readMigrations Sum256 m t =
     (case listFiles (folder m) ''.'' t of
        (t1, Inl err) \<Rightarrow> (t1, Inl err)
      | (t1, Inr files) \<Rightarrow>
         (case readFiles Sum256 (folder m) files [] t1 of
            (t2, Inl err) \<Rightarrow> (t2, Inl err)
          | (t2, Inr items) \<Rightarrow>
             (let items = sortSlice items
              in if 0 < length items \<and> Version (hd items) \<noteq> 1
                 then (t2, Inl (Errorf_w_s ErrInvalidMigrationFile ''first migration must have version 1''))
                 else (case sequential items of
                         Some err \<Rightarrow> (t2, Inl err)
                       | None \<Rightarrow> (t2, Inr items)))))"

subsection \<open>\<open>validate\<close>\<close>

text \<open>The loop over the statements of one migration, with a validator configured.\<close>

fun validateStatements ::
  "Migrator \<Rightarrow> QueryValidator \<Rightarrow> string \<Rightarrow> string list \<Rightarrow> call list \<Rightarrow> call list \<times> error option" where
  "validateStatements m qv fname [] t = (t, None)"
| "validateStatements m qv fname (statement # statements) t =
     (let dialect = Dialect (driver m) t;
          t1 = t @ [CallDialect dialect];
          r = ValidateQuery qv t1 dialect statement;
          t2 = t1 @ [CallValidateQuery dialect statement r]
      in case r of
           Some err \<Rightarrow>
             (t2, Some (Errorf (fname @ '': '' @ Error ErrInvalidQuery @ '' '' @ Error err)
                          ErrInvalidQuery))
         | None \<Rightarrow> validateStatements m qv fname statements t2)"

definition validate :: "Migrator \<Rightarrow> Migration \<Rightarrow> call list \<Rightarrow> call list \<times> error option" where
  "validate m migration t =
     (if length (Statements migration) = 0
      then (t, Some (Errorf_w_s ErrInvalidMigrationFile (Fname migration @ '' is empty'')))
      else case qvalidator m of
             None \<Rightarrow> (t, None)
           | Some qv \<Rightarrow> validateStatements m qv (Fname migration) (Statements migration) t)"

subsection \<open>\<open>Migrate\<close>\<close>

text \<open>
  The loop \<open>for i := range appliedMigrations\<close>, comparing the applied and the local
  migration at each index. Reading a local migration past the end of the slice panics.
\<close>

fun inSync :: "Migration list \<Rightarrow> Migration list \<Rightarrow> error option" where
  "inSync [] localMigrations = None"
| "inSync (applied # appliedMigrations) [] = Some (Panic ''index out of range'')"
| "inSync (applied # appliedMigrations) (loc # localMigrations) =
     (if Version applied \<noteq> Version loc
      then Some (Errorf_w_s ErrInvalidMigrationFile
                   ''local migrations are not in sync with applied migrations'')
      else if Hash applied \<noteq> Hash loc
      then Some (Errorf_w_s ErrInvalidMigrationFile
                   ''local migrations are not in sync with applied migrations'')
      else inSync appliedMigrations localMigrations)"

text \<open>The loop \<open>for _, migration := range toApply\<close>.\<close>

fun validateAll :: "Migrator \<Rightarrow> Migration list \<Rightarrow> call list \<Rightarrow> call list \<times> error option" where
  "validateAll m [] t = (t, None)"
| "validateAll m (migration # toApply) t =
     (case validate m migration t of
        (t1, Some err) \<Rightarrow> (t1, Some err)
      | (t1, None) \<Rightarrow> validateAll m toApply t1)"

definition Migrate :: "(string \<Rightarrow> string) \<Rightarrow> Migrator \<Rightarrow> call list \<times> error option" where
  "Migrate Sum256 m =
     (let r = CreateMigrationsTable (driver m) [] (migrationsTable m);
          t1 = [CallCreateMigrationsTable (migrationsTable m)]
      in case r of
           Some err \<Rightarrow> (t1, Some err)
         | None \<Rightarrow>
            (case readMigrations Sum256 m t1 of
               (t2, Inl err) \<Rightarrow> (t2, Some err)
             | (t2, Inr localMigrations) \<Rightarrow>
                (let r = SelectMigrations (driver m) t2 (migrationsTable m);
                     t3 = t2 @ [CallSelectMigrations (migrationsTable m)]
                 in case r of
                      Inl err \<Rightarrow> (t3, Some err)
                    | Inr appliedMigrations \<Rightarrow>
                       if length localMigrations < length appliedMigrations
                       then (t3, Some (Errorf_w_s ErrInvalidMigrationFile
                                         ''local migrations are less than applied migrations''))
                       else
                         (case inSync appliedMigrations localMigrations of
                            Some err \<Rightarrow> (t3, Some err)
                          | None \<Rightarrow>
                             (let toApply = drop (length appliedMigrations) localMigrations
                              in if length toApply = 0 then (t3, None)
                                 else
                                   (case validateAll m toApply t3 of
                                      (t4, Some err) \<Rightarrow> (t4, Some err)
                                    | (t4, None) \<Rightarrow>
                                       (t4 @ [CallApplyMigrations (migrationsTable m)
                                                (inTransaction m) toApply],
                                        ApplyMigrations (driver m) t4 (migrationsTable m)
                                          (inTransaction m) toApply)))))))"

section \<open>Concrete collaborators for example runs\<close>

definition sqlFile :: "string \<Rightarrow> DirEntry" where
  "sqlFile name = \<lparr>Name = name, IsDir = False\<rparr>"

text \<open>A store that answers every call with success and reports no applied migration.\<close>

definition emptyStore :: DBDriver where
  "emptyStore =
     \<lparr>Dialect = (\<lambda>t. ''sqlite''),
      CreateMigrationsTable = (\<lambda>t tbl. None),
      SelectMigrations = (\<lambda>t tbl. Inr []),
      ApplyMigrations = (\<lambda>t tbl inTx migrations. None)\<rparr>"

text \<open>A store whose \<open>CreateMigrationsTable\<close> fails, as in the package's test.\<close>

definition brokenStore :: DBDriver where
  "brokenStore = emptyStore\<lparr>CreateMigrationsTable := (\<lambda>t tbl. Some (Foreign ''error''))\<rparr>"

text \<open>The folder of the package's test: one file \<open>1_demo.sql\<close>.\<close>

definition demoStmt :: string where
  "demoStmt = ''CREATE TABLE demo (id INT NOT NULL);''"

definition demoFS :: FS where
  "demoFS =
     \<lparr>ReadDir = (\<lambda>dir. Inr [sqlFile ''1_demo.sql'']),
      ReadFile = (\<lambda>name. if name = ''1_demo.sql'' then Inr demoStmt
                          else Inl (Foreign ''file does not exist''))\<rparr>"

definition newMigrator :: "DBDriver \<Rightarrow> FS \<Rightarrow> Migrator" where
  "newMigrator d fsys =
     \<lparr>driver = d, migrationsTable = ''schema_migrations'', folder = fsys,
      qvalidator = None, inTransaction = False\<rparr>"

text \<open>A folder with two migrations, the first of two statements.\<close>

definition twoFS :: FS where
  "twoFS =
     \<lparr>ReadDir = (\<lambda>dir. Inr [sqlFile ''1_init.sql'', sqlFile ''2_users.sql'']),
      ReadFile = (\<lambda>name.
        if name = ''1_init.sql''
          then Inr (''CREATE TABLE a (id INT);'' @ [CHR 0x0A] @ ''-- migrate:next'' @ [CHR 0x0A]
                    @ ''CREATE TABLE b (id INT);'' @ [CHR 0x0A])
        else if name = ''2_users.sql'' then Inr ''CREATE TABLE users (id INT);''
        else Inl (Foreign ''file does not exist''))\<rparr>"

text \<open>The migrations read from it, with the identity as digest function.\<close>

definition twoItems :: "Migration list" where
  "twoItems =
     [\<lparr>Version = 1, Fname = ''1_init.sql'', AppliedAt = None,
       Statements = [''CREATE TABLE a (id INT);'' @ [CHR 0x0A],
                     [CHR 0x0A] @ ''CREATE TABLE b (id INT);''],
       Hash = Sprintf_x (''CREATE TABLE a (id INT);'' @ [CHR 0x0A] @ ''-- migrate:next''
                 @ [CHR 0x0A] @ ''CREATE TABLE b (id INT);'')\<rparr>,
      \<lparr>Version = 2, Fname = ''2_users.sql'', AppliedAt = None,
       Statements = [''CREATE TABLE users (id INT);''],
       Hash = Sprintf_x ''CREATE TABLE users (id INT);''\<rparr>]"

text \<open>A folder whose only file holds two blanks and a newline.\<close>

definition blankFS :: FS where
  "blankFS =
     \<lparr>ReadDir = (\<lambda>dir. Inr [sqlFile ''1_blank.sql'']),
      ReadFile = (\<lambda>name. if name = ''1_blank.sql'' then Inr [CHR 0x20, CHR 0x20, CHR 0x0A]
                          else Inl (Foreign ''file does not exist''))\<rparr>"

definition blankItem :: Migration where
  "blankItem =
     \<lparr>Version = 1, Fname = ''1_blank.sql'', AppliedAt = None, Statements = [[]],
      Hash = Sprintf_x []\<rparr>"

definition demoItem :: "(string \<Rightarrow> string) \<Rightarrow> Migration" where
  "demoItem Sum256 =
     \<lparr>Version = 1, Fname = ''1_demo.sql'', AppliedAt = None, Statements = [demoStmt],
      Hash = Sprintf_x (Sum256 demoStmt)\<rparr>"

text \<open>Stores that report applied migrations: the first one of \<open>twoFS\<close>, intact and altered.\<close>

definition storeWith :: "Migration list \<Rightarrow> DBDriver" where
  "storeWith applied = emptyStore\<lparr>SelectMigrations := (\<lambda>t tbl. Inr applied)\<rparr>"

definition firstApplied :: "Migration list" where
  "firstApplied =
     [\<lparr>Version = 1, Fname = ''1_init.sql'', AppliedAt = Some ''2024-05-01T10:00:00Z'',
       Statements = [], Hash = Hash (twoItems ! 0)\<rparr>]"

definition tampered :: "Migration list" where
  "tampered =
     [\<lparr>Version = 1, Fname = ''1_init.sql'', AppliedAt = Some ''2024-05-01T10:00:00Z'',
       Statements = [], Hash = ''00''\<rparr>]"

text \<open>A validator that reports a problem for every statement mentioning \<open>users\<close>.\<close>

definition strictValidator :: QueryValidator where
  "strictValidator =
     \<lparr>ValidateQuery = (\<lambda>t dialect query.
        if query = ''CREATE TABLE users (id INT);'' then Some (Foreign ''L001'') else None)\<rparr>"

text \<open>Migrators over \<open>twoFS\<close>, and the log up to the reading of its files.\<close>

definition mTampered :: Migrator where
  "mTampered = newMigrator (storeWith tampered) twoFS"

definition mFirst :: Migrator where
  "mFirst = newMigrator (storeWith firstApplied) twoFS"

definition mStrict :: Migrator where
  "mStrict = (newMigrator emptyStore twoFS)\<lparr>qvalidator := Some strictValidator\<rparr>"

definition twoLog :: "call list" where
  "twoLog = [CallCreateMigrationsTable ''schema_migrations'', CallReadDir ''.'',
             CallReadFile ''1_init.sql'', CallReadFile ''2_users.sql'']"

text \<open>A folder with a gap: versions 1 and 3.\<close>

definition gapFS :: FS where
  "gapFS =
     \<lparr>ReadDir = (\<lambda>dir. Inr [sqlFile ''1_x.sql'', sqlFile ''3_y.sql'']),
      ReadFile = (\<lambda>name. if name = ''1_x.sql'' \<or> name = ''3_y.sql'' then Inr ''SELECT 1;''
                          else Inl (Foreign ''file does not exist''))\<rparr>"

text \<open>A folder whose only file has letters after the digits of its version.\<close>

definition lettersFS :: FS where
  "lettersFS =
     \<lparr>ReadDir = (\<lambda>dir. Inr [sqlFile ''1abc_x.sql'']),
      ReadFile = (\<lambda>name. if name = ''1abc_x.sql'' then Inr ''SELECT 1;''
                          else Inl (Foreign ''file does not exist''))\<rparr>"

section \<open>Notions used in the statements\<close>

text \<open>The version \<open>readMigrations\<close> reads from a file name, if it reads one.\<close>

definition versionOf :: "string \<Rightarrow> 64 word option" where
  "versionOf name =
     (case stringsIndex name ''_'' of
        None \<Rightarrow> None
      | Some idx \<Rightarrow> (case Sscanf_d (take idx name) of Inl err \<Rightarrow> None | Inr v \<Rightarrow> Some v))"

text \<open>
  A migration is read from its file: its version is the one of the file name and is not
  zero, its statements are the pieces of the trimmed content, its hash is the hash of the
  trimmed content.
\<close>

definition fromFile :: "(string \<Rightarrow> string) \<Rightarrow> FS \<Rightarrow> Migration \<Rightarrow> bool" where
  "fromFile Sum256 fsys mg \<longleftrightarrow>
     (case versionOf (Fname mg) of
        None \<Rightarrow> False
      | Some v \<Rightarrow>
          v \<noteq> 0 \<and> Version mg = v \<and>
          (case ReadFile fsys (Fname mg) of
             Inl err \<Rightarrow> False
           | Inr data \<Rightarrow>
               Statements mg = Split (TrimSpace data) \<and>
               Hash mg = computeHash Sum256 (TrimSpace data)))"

text \<open>The kinds of calls in a log.\<close>

definition isRead :: "call \<Rightarrow> bool" where
  "isRead c = (case c of CallReadDir dir \<Rightarrow> True | CallReadFile name \<Rightarrow> True | _ \<Rightarrow> False)"

definition isValidation :: "call \<Rightarrow> bool" where
  "isValidation c = (case c of CallDialect d \<Rightarrow> True | CallValidateQuery d q r \<Rightarrow> True | _ \<Rightarrow> False)"

definition isApply :: "call \<Rightarrow> bool" where
  "isApply c = (case c of CallApplyMigrations tbl inTx batch \<Rightarrow> True | _ \<Rightarrow> False)"

text \<open>
  A stretch of the log made of pairs: a \<open>Dialect\<close> call, then a \<open>ValidateQuery\<close> call
  that is given the dialect just declared.
\<close>

fun dialectPairs :: "call list \<Rightarrow> bool" where
  "dialectPairs [] = True"
| "dialectPairs (CallDialect d # CallValidateQuery d' q r # cs) = (d = d' \<and> dialectPairs cs)"
| "dialectPairs cs = False"

text \<open>The queries given to the validator, in order, and whether it reported no problem.\<close>

fun queriesOf :: "call list \<Rightarrow> string list" where
  "queriesOf [] = []"
| "queriesOf (CallValidateQuery d q r # cs) = q # queriesOf cs"
| "queriesOf (c # cs) = queriesOf cs"

fun problemFree :: "call list \<Rightarrow> bool" where
  "problemFree [] = True"
| "problemFree (CallValidateQuery d q (Some err) # cs) = False"
| "problemFree (c # cs) = problemFree cs"

text \<open>The applied migrations are a prefix of the local ones by version and hash.\<close>

definition consistentPrefix :: "Migration list \<Rightarrow> Migration list \<Rightarrow> bool" where
  "consistentPrefix applied loc \<longleftrightarrow>
     length applied \<le> length loc \<and>
     (\<forall>i<length applied. Version (applied ! i) = Version (loc ! i) \<and> Hash (applied ! i) = Hash (loc ! i))"

text \<open>
  What a stretch \<open>cs\<close> of the log and a result \<open>r\<close> must be for the validation of the
  statements \<open>stmts\<close>: pairs of calls throughout; on success no problem reported and, with
  a validator configured, every statement validated once and in order; on failure an
  \<open>ErrInvalidQuery\<close> error, a problem reported, and only statements validated.
\<close>

definition validated :: "Migrator \<Rightarrow> string list \<Rightarrow> call list \<Rightarrow> error option \<Rightarrow> bool" where
  "validated m stmts cs r \<longleftrightarrow>
     dialectPairs cs \<and>
     (case r of
        None \<Rightarrow>
          problemFree cs \<and>
          queriesOf cs = (case qvalidator m of None \<Rightarrow> [] | Some qv \<Rightarrow> stmts)
      | Some e \<Rightarrow>
          errorsIs e ErrInvalidQuery \<and> qvalidator m \<noteq> None \<and>
          \<not> problemFree cs \<and> prefix (queriesOf cs) stmts)"

text \<open>
  A gap in the versions of a folder's files: some file has a version above 1 and no file
  has the version before it.
\<close>

definition hasGap :: "string list \<Rightarrow> bool" where
  "hasGap names \<longleftrightarrow>
     (\<exists>f\<in>set names.
        case versionOf f of
          None \<Rightarrow> False
        | Some v \<Rightarrow> 1 <s v \<and> (\<forall>g\<in>set names. versionOf g \<noteq> Some (v - 1)))"

text \<open>
  The text \<open>h\<close> is the lower-case hexadecimal encoding of the bytes \<open>b\<close>: two characters
  per byte, the digit of the high half-byte and then the digit of the low one.
\<close>

definition isLowerHexOf :: "string \<Rightarrow> string \<Rightarrow> bool" where
  "isLowerHexOf h b \<longleftrightarrow>
     length h = 2 * length b \<and>
     (\<forall>i<length b.
        h ! (2 * i) = ''0123456789abcdef'' ! (of_char (b ! i) div 16) \<and>
        h ! (2 * i + 1) = ''0123456789abcdef'' ! (of_char (b ! i) mod 16))"

text \<open>
  The bytes \<open>body\<close> are the content \<open>data\<close> with the surrounding white space trimmed:
  \<open>data\<close> is \<open>body\<close> between two runs of white-space runes, and \<open>body\<close> neither starts nor
  ends with a white-space rune.
\<close>

definition isTrimOf :: "string \<Rightarrow> string \<Rightarrow> bool" where
  "isTrimOf body data \<longleftrightarrow>
     (\<exists>before after.
        set before \<subseteq> set spaceRunes \<and> set after \<subseteq> set spaceRunes \<and>
        data = concat before @ body @ concat after) \<and>
     (\<forall>p\<in>set spaceRunes. \<not> prefix p body \<and> \<not> suffix p body)"

section \<open>Properties\<close>

subsection \<open>Errors, splitting, trimming\<close>

lemma errorsIs_Errorf_w_s [simp]: "errorsIs (Errorf_w_s e msg) e"
  by (simp add: Errorf_w_s_def) (cases e; simp)

lemma Split_not_Nil: "Split s \<noteq> []"
  by (subst Split.simps) (simp split: option.splits)

lemma Split_Nil: "Split [] = [[]]"
  by (subst Split.simps) (simp add: migrateNext_def)

lemma TrimRightSpace_Nil: "TrimRightSpace [] = []"
  by (subst TrimRightSpace.simps) (simp add: trailingSpace_def spaceRunes_def)

subsection \<open>The loop over the files\<close>

lemma readFiles_Inr:
  "readFiles S fsys files items t = (t', Inr ms) \<Longrightarrow>
   \<exists>new. ms = items @ new \<and> map Fname new = files \<and> (\<forall>mg\<in>set new. fromFile S fsys mg)"
proof (induction files arbitrary: items t)
  case Nil
  then show ?case by simp
next
  case (Cons name names)
  from Cons.prems obtain idx v data where
    idx: "stringsIndex name ''_'' = Some idx" and
    v: "Sscanf_d (take idx name) = Inr v" "v \<noteq> 0" and
    data: "ReadFile fsys name = Inr data" and
    rest: "readFiles S fsys names
             (items @ [\<lparr>Version = v, Fname = name, AppliedAt = None,
                         Statements = Split (TrimSpace data),
                         Hash = computeHash S (TrimSpace data)\<rparr>])
             (t @ [CallReadFile name]) = (t', Inr ms)"
    by (auto simp: Let_def split: option.splits sum.splits if_splits)
  let ?mg = "\<lparr>Version = v, Fname = name, AppliedAt = None,
              Statements = Split (TrimSpace data), Hash = computeHash S (TrimSpace data)\<rparr>"
  from Cons.IH [OF rest] obtain new where
    new: "ms = (items @ [?mg]) @ new" "map Fname new = names" "\<forall>mg\<in>set new. fromFile S fsys mg"
    by blast
  have "fromFile S fsys ?mg"
    using idx v data by (simp add: fromFile_def versionOf_def)
  with new show ?case
    by (intro exI [of _ "?mg # new"]) simp
qed

lemma readFiles_log:
  "readFiles S fsys files items t = (t', r) \<Longrightarrow> \<exists>cs. t' = t @ cs \<and> (\<forall>c\<in>set cs. isRead c)"
proof (induction files arbitrary: items t)
  case Nil
  then show ?case by simp
next
  case (Cons name names)
  show ?case
  proof (cases "\<exists>idx v data. stringsIndex name ''_'' = Some idx \<and> Sscanf_d (take idx name) = Inr v
                  \<and> v \<noteq> 0 \<and> ReadFile fsys name = Inr data")
    case True
    then obtain idx v data where
      h: "stringsIndex name ''_'' = Some idx" "Sscanf_d (take idx name) = Inr v" "v \<noteq> 0"
         "ReadFile fsys name = Inr data"
      by blast
    with Cons.prems obtain items' where
      "readFiles S fsys names items' (t @ [CallReadFile name]) = (t', r)"
      by (simp add: Let_def)
    from Cons.IH [OF this] obtain cs where
      "t' = (t @ [CallReadFile name]) @ cs" "\<forall>c\<in>set cs. isRead c" by blast
    then show ?thesis
      by (intro exI [of _ "CallReadFile name # cs"]) (simp add: isRead_def)
  next
    case False
    with Cons.prems have "t' = t \<or> t' = t @ [CallReadFile name]"
      by (auto simp: Let_def split: option.splits sum.splits if_splits)
    then show ?thesis
    proof
      assume "t' = t"
      then show ?thesis by (intro exI [of _ "[]"]) simp
    next
      assume "t' = t @ [CallReadFile name]"
      then show ?thesis by (intro exI [of _ "[CallReadFile name]"]) (simp add: isRead_def)
    qed
  qed
qed

lemma readFiles_Inl:
  "readFiles S fsys files items t = (t', Inl e) \<Longrightarrow>
   errorsIs e ErrInvalidMigrationFile \<or> (\<exists>f\<in>set files. ReadFile fsys f = Inl e)"
proof (induction files arbitrary: items t)
  case Nil
  then show ?case by simp
next
  case (Cons name names)
  show ?case
  proof (cases "\<exists>idx v data. stringsIndex name ''_'' = Some idx \<and> Sscanf_d (take idx name) = Inr v
                  \<and> v \<noteq> 0 \<and> ReadFile fsys name = Inr data")
    case True
    then obtain idx v data where
      h: "stringsIndex name ''_'' = Some idx" "Sscanf_d (take idx name) = Inr v" "v \<noteq> 0"
         "ReadFile fsys name = Inr data"
      by blast
    with Cons.prems obtain items' where
      "readFiles S fsys names items' (t @ [CallReadFile name]) = (t', Inl e)"
      by (simp add: Let_def)
    from Cons.IH [OF this] show ?thesis by auto
  next
    case False
    with Cons.prems show ?thesis
      by (auto simp: Let_def split: option.splits sum.splits if_splits)
  qed
qed

subsection \<open>The listing of the folder\<close>

lemma listEntries_Inr:
  "listEntries entries files = Inr names \<Longrightarrow>
   names = files @ map Name entries \<and> (\<forall>e\<in>set entries. \<not> IsDir e \<and> HasSuffix (Name e) ''.sql'')"
proof (induction entries arbitrary: files)
  case Nil
  then show ?case by simp
next
  case (Cons a entries)
  from Cons.prems have a: "\<not> IsDir a" "HasSuffix (Name a) ''.sql''" and
    rest: "listEntries entries (files @ [Name a]) = Inr names"
    by (auto split: if_splits)
  from Cons.IH [OF rest] a show ?case by simp
qed

lemma listEntries_Inl:
  "listEntries entries files = Inl e \<Longrightarrow> \<forall>x\<in>set entries. \<not> IsDir x \<Longrightarrow>
   errorsIs e ErrInvalidMigrationFile"
  by (induction entries arbitrary: files) (auto split: if_splits)

subsection \<open>Sorting and the sequence check\<close>

lemma sortSlice_sorted: "sorted (map (\<lambda>m. sint (Version m)) (sortSlice items))"
  by (simp add: sortSlice_def)

lemma sortSlice_set: "set (sortSlice items) = set items"
  by (simp add: sortSlice_def)

lemma sortSlice_length: "length (sortSlice items) = length items"
  by (simp add: sortSlice_def)

lemma word_succ_sint:
  fixes a b :: "64 word"
  assumes "b - a = 1" "sint a \<le> sint b"
  shows "sint b = sint a + 1"
proof -
  from assms(1) have b: "b = a + 1" by (simp add: algebra_simps)
  have sb: "sint b = signed_take_bit 63 (sint a + 1)"
    unfolding b by (simp add: sint_word_ariths)
  have lo: "- (2 ^ 63) \<le> sint a" using sint_ge [of a] by simp
  have hi: "sint a < 2 ^ 63" using sint_lt [of a] by simp
  show ?thesis
  proof (cases "sint a + 1 < 2 ^ 63")
    case True
    with lo have "signed_take_bit 63 (sint a + 1) = sint a + 1"
      by (simp add: signed_take_bit_int_eq_self_iff)
    with sb show ?thesis by simp
  next
    case False
    with hi have "sint a = 2 ^ 63 - 1" by simp
    with sb have "sint b = - (2 ^ 63)" by simp
    with assms(2) \<open>sint a = 2 ^ 63 - 1\<close> show ?thesis by simp
  qed
qed

lemma sequential_versions:
  "sorted (map (\<lambda>m. sint (Version m)) items) \<Longrightarrow> sequential items = None \<Longrightarrow> i < length items \<Longrightarrow>
   sint (Version (items ! i)) = sint (Version (hd items)) + int i"
proof (induction items arbitrary: i rule: sequential.induct)
  case (1 prev cur items)
  from "1.prems"(2) have step: "Version cur - Version prev = 1" and
    rest: "sequential (cur # items) = None"
    by (auto split: if_splits)
  from "1.prems"(1) have le: "sint (Version prev) \<le> sint (Version cur)" and
    srt: "sorted (map (\<lambda>m. sint (Version m)) (cur # items))"
    by simp_all
  from word_succ_sint [OF step le] have nxt: "sint (Version cur) = sint (Version prev) + 1" .
  show ?case
  proof (cases i)
    case 0
    then show ?thesis by simp
  next
    case (Suc j)
    with "1.prems"(3) have "j < length (cur # items)" by simp
    from "1.IH" [OF _ srt rest this] step
    have "sint (Version ((cur # items) ! j)) = sint (Version cur) + int j" by simp
    with Suc nxt show ?thesis by simp
  qed
qed simp_all

subsection \<open>What \<open>readMigrations\<close> returns\<close>

lemma readMigrations_Inr:
  assumes "readMigrations S m t = (t', Inr items)"
  shows "\<exists>entries raw.
           ReadDir (folder m) ''.'' = Inr entries \<and>
           (\<forall>e\<in>set entries. \<not> IsDir e \<and> HasSuffix (Name e) ''.sql'') \<and>
           map Fname raw = map Name entries \<and>
           (\<forall>mg\<in>set raw. fromFile S (folder m) mg) \<and>
           items = sortSlice raw \<and>
           (items = [] \<or> Version (hd items) = 1) \<and>
           sequential items = None"
proof -
  from assms obtain entries where rd: "ReadDir (folder m) ''.'' = Inr entries"
    by (auto simp: readMigrations_def listFiles_def Let_def split: sum.splits prod.splits)
  from assms rd obtain names where ls: "listEntries entries [] = Inr names"
    by (auto simp: readMigrations_def listFiles_def Let_def split: sum.splits prod.splits)
  from assms rd ls obtain t2 raw where
    rf: "readFiles S (folder m) names [] (t @ [CallReadDir ''.'']) = (t2, Inr raw)"
    by (auto simp: readMigrations_def listFiles_def Let_def split: sum.splits prod.splits)
  from assms rd ls rf have
    chk: "\<not> (0 < length (sortSlice raw) \<and> Version (hd (sortSlice raw)) \<noteq> 1)" and
    sq: "sequential (sortSlice raw) = None" and it: "items = sortSlice raw"
    by (auto simp: readMigrations_def listFiles_def Let_def split: if_splits option.splits)
  from listEntries_Inr [OF ls] have
    names: "names = map Name entries" and
    ents: "\<forall>e\<in>set entries. \<not> IsDir e \<and> HasSuffix (Name e) ''.sql''"
    by simp_all
  from readFiles_Inr [OF rf] have "map Fname raw = names" "\<forall>mg\<in>set raw. fromFile S (folder m) mg"
    by auto
  with rd names ents chk sq it show ?thesis
    by (intro exI [of _ entries] exI [of _ raw]) auto
qed

lemma sequential_Some: "sequential items = Some e \<Longrightarrow> errorsIs e ErrInvalidMigrationFile"
  by (induction items rule: sequential.induct) (auto split: if_splits)

lemma readMigrations_log:
  assumes "readMigrations S m t = (t', r)"
  shows "\<exists>cs. t' = t @ cs \<and> (\<forall>c\<in>set cs. isRead c)"
proof (cases "listFiles (folder m) ''.'' t")
  case (Pair t1 r1)
  then have t1: "t1 = t @ [CallReadDir ''.'']"
    by (auto simp: listFiles_def Let_def split: sum.splits)
  show ?thesis
  proof (cases r1)
    case (Inl e)
    with assms Pair have "t' = t1" by (simp add: readMigrations_def)
    with t1 show ?thesis by (intro exI [of _ "[CallReadDir ''.'']"]) (simp add: isRead_def)
  next
    case (Inr names)
    obtain t2 r2 where rf: "readFiles S (folder m) names [] t1 = (t2, r2)"
      by (cases "readFiles S (folder m) names [] t1")
    with assms Pair Inr have "t' = t2"
      by (auto simp: readMigrations_def Let_def split: sum.splits if_splits option.splits)
    moreover from readFiles_log [OF rf] obtain cs where "t2 = t1 @ cs" "\<forall>c\<in>set cs. isRead c"
      by blast
    ultimately show ?thesis using t1
      by (intro exI [of _ "CallReadDir ''.'' # cs"]) (simp add: isRead_def)
  qed
qed

lemma readMigrations_Inl:
  assumes "readMigrations S m t = (t', Inl e)"
    and "ReadDir (folder m) ''.'' = Inr entries"
    and "\<forall>x\<in>set entries. \<not> IsDir x"
    and "\<forall>x\<in>set entries. \<exists>data. ReadFile (folder m) (Name x) = Inr data"
  shows "errorsIs e ErrInvalidMigrationFile"
proof (cases "listEntries entries []")
  case (Inl e1)
  with assms(1,2) have "e = e1" by (simp add: readMigrations_def listFiles_def)
  with listEntries_Inl [OF Inl assms(3)] show ?thesis by simp
next
  case (Inr names)
  from listEntries_Inr [OF Inr] have names: "names = map Name entries" by simp
  obtain t2 r2 where rf: "readFiles S (folder m) names [] (t @ [CallReadDir ''.'']) = (t2, r2)"
    by (cases "readFiles S (folder m) names [] (t @ [CallReadDir ''.''])")
  show ?thesis
  proof (cases r2)
    case (Inl e2)
    with assms(1,2) Inr rf have "e = e2" by (simp add: readMigrations_def listFiles_def)
    with readFiles_Inl [of S "folder m" names "[]" _ t2 e2] rf Inl
    have "errorsIs e ErrInvalidMigrationFile \<or> (\<exists>f\<in>set names. ReadFile (folder m) f = Inl e)"
      by simp
    with names assms(4) show ?thesis by auto
  next
    case (Inr raw)
    with assms(1,2) \<open>listEntries entries [] = Inr names\<close> rf show ?thesis
      by (auto simp: readMigrations_def listFiles_def Let_def sequential_Some
               split: if_splits option.splits)
  qed
qed

subsection \<open>Validation\<close>

lemma validateStatements_Some:
  "validateStatements m qv name stmts t = (t', Some e) \<Longrightarrow> \<exists>txt. e = Errorf txt ErrInvalidQuery"
  by (induction stmts arbitrary: t) (auto simp: Let_def split: option.splits)

lemma validate_Some:
  assumes "validate m mg t = (t', Some e)" "Statements mg \<noteq> []"
  shows "\<exists>txt. e = Errorf txt ErrInvalidQuery"
  using assms validateStatements_Some
  by (auto simp: validate_def split: option.splits)

subsection \<open>Hexadecimal digits\<close>

lemma hexDigit_range: "hexDigit n \<in> set ''0123456789abcdef''"
proof -
  have "n mod 16 < length ''0123456789abcdef''" by simp
  then show ?thesis unfolding hexDigit_def by (rule nth_mem)
qed

lemma Sprintf_x_range: "set (Sprintf_x b) \<subseteq> set ''0123456789abcdef''"
  unfolding Sprintf_x_def using hexDigit_range by auto

lemma Sprintf_x_Cons:
  "Sprintf_x (c # b) = hexDigit (of_char c div 16) # hexDigit (of_char c) # Sprintf_x b"
  by (simp add: Sprintf_x_def)

lemma hexDigit_high: "hexDigit (of_char c div 16) = ''0123456789abcdef'' ! (of_char c div 16)"
proof -
  have "(of_char c :: nat) div 16 < 16" by (rule less_mult_imp_div_less) simp
  then show ?thesis by (simp add: hexDigit_def)
qed

lemma Sprintf_x_isLowerHexOf: "isLowerHexOf (Sprintf_x b) b"
proof (induction b)
  case Nil
  then show ?case by (simp add: isLowerHexOf_def Sprintf_x_def)
next
  case (Cons c b)
  from Cons have len: "length (Sprintf_x b) = 2 * length b" and
    nth: "\<And>i. i < length b \<Longrightarrow>
        Sprintf_x b ! (2 * i) = ''0123456789abcdef'' ! (of_char (b ! i) div 16) \<and>
        Sprintf_x b ! (2 * i + 1) = ''0123456789abcdef'' ! (of_char (b ! i) mod 16)"
    by (simp_all add: isLowerHexOf_def)
  have "Sprintf_x (c # b) ! (2 * i) = ''0123456789abcdef'' ! (of_char ((c # b) ! i) div 16) \<and>
        Sprintf_x (c # b) ! (2 * i + 1) = ''0123456789abcdef'' ! (of_char ((c # b) ! i) mod 16)"
    if "i < length (c # b)" for i
  proof (cases i)
    case 0
    then show ?thesis by (simp add: Sprintf_x_Cons hexDigit_high) (simp add: hexDigit_def)
  next
    case (Suc j)
    with that have "j < length b" by simp
    from nth [OF this] Suc show ?thesis by (simp add: Sprintf_x_Cons)
  qed
  with len show ?case by (simp add: isLowerHexOf_def Sprintf_x_Cons)
qed

lemma isLowerHexOf_unique:
  assumes "isLowerHexOf h b" "isLowerHexOf h' b"
  shows "h = h'"
proof (rule nth_equalityI)
  from assms show "length h = length h'" by (simp add: isLowerHexOf_def)
next
  fix k assume k: "k < length h"
  with assms(1) have "k div 2 < length b" by (simp add: isLowerHexOf_def)
  with assms have
    "h ! (2 * (k div 2)) = h' ! (2 * (k div 2))"
    "h ! (2 * (k div 2) + 1) = h' ! (2 * (k div 2) + 1)"
    by (simp_all add: isLowerHexOf_def)
  moreover have "k = 2 * (k div 2) \<or> k = 2 * (k div 2) + 1" by presburger
  ultimately show "h ! k = h' ! k" by metis
qed

subsection \<open>Trimming takes off white space and nothing else\<close>

lemma leadingSpace_None: "leadingSpace s = None \<longleftrightarrow> (\<forall>p\<in>set spaceRunes. \<not> prefix p s)"
  by (auto simp: leadingSpace_def find_None_iff)

lemma trailingSpace_None: "trailingSpace s = None \<longleftrightarrow> (\<forall>p\<in>set spaceRunes. \<not> suffix p s)"
  by (auto simp: trailingSpace_def find_None_iff)

lemma TrimLeftSpace_decomp:
  "\<exists>ws. set ws \<subseteq> set spaceRunes \<and> s = concat ws @ TrimLeftSpace s
        \<and> leadingSpace (TrimLeftSpace s) = None"
proof (induction s rule: TrimLeftSpace.induct)
  case (1 s)
  show ?case
  proof (cases "leadingSpace s")
    case None
    then have "TrimLeftSpace s = s" by (subst TrimLeftSpace.simps) simp
    with None show ?thesis by (intro exI [of _ "[]"]) simp
  next
    case (Some p)
    then have t: "TrimLeftSpace s = TrimLeftSpace (drop (length p) s)"
      by (subst TrimLeftSpace.simps) simp
    from leadingSpace_Some [OF Some] have p: "prefix p s" "p \<in> set spaceRunes" by simp_all
    then have s: "s = p @ drop (length p) s" by (auto simp: prefix_def)
    from "1.IH" [OF Some] obtain ws where
      ws: "set ws \<subseteq> set spaceRunes"
        "drop (length p) s = concat ws @ TrimLeftSpace (drop (length p) s)"
        "leadingSpace (TrimLeftSpace (drop (length p) s)) = None"
      by blast
    from s ws(2) have "s = concat (p # ws) @ TrimLeftSpace (drop (length p) s)" by simp
    with ws(1,3) p(2) t show ?thesis by (intro exI [of _ "p # ws"]) simp
  qed
qed

lemma TrimRightSpace_decomp:
  "\<exists>ws. set ws \<subseteq> set spaceRunes \<and> s = TrimRightSpace s @ concat ws
        \<and> trailingSpace (TrimRightSpace s) = None"
proof (induction s rule: TrimRightSpace.induct)
  case (1 s)
  show ?case
  proof (cases "trailingSpace s")
    case None
    then have "TrimRightSpace s = s" by (subst TrimRightSpace.simps) simp
    with None show ?thesis by (intro exI [of _ "[]"]) simp
  next
    case (Some p)
    let ?r = "take (length s - length p) s"
    from Some have t: "TrimRightSpace s = TrimRightSpace ?r"
      by (subst TrimRightSpace.simps) simp
    from trailingSpace_Some [OF Some] have p: "suffix p s" "p \<in> set spaceRunes" by simp_all
    then have s: "s = ?r @ p" by (auto simp: suffix_def)
    from "1.IH" [OF Some] obtain ws where
      ws: "set ws \<subseteq> set spaceRunes" "?r = TrimRightSpace ?r @ concat ws"
        "trailingSpace (TrimRightSpace ?r) = None"
      by blast
    from s have "s = (TrimRightSpace ?r @ concat ws) @ p" by (subst ws(2) [symmetric])
    then have "s = TrimRightSpace ?r @ concat (ws @ [p])" by simp
    with ws(1,3) p(2) t show ?thesis by (intro exI [of _ "ws @ [p]"]) simp
  qed
qed

lemma TrimSpace_isTrimOf: "isTrimOf (TrimSpace data) data"
proof -
  from TrimLeftSpace_decomp [of data] obtain before where
    b: "set before \<subseteq> set spaceRunes" "data = concat before @ TrimLeftSpace data"
       "leadingSpace (TrimLeftSpace data) = None"
    by blast
  from TrimRightSpace_decomp [of "TrimLeftSpace data"] obtain after where
    a: "set after \<subseteq> set spaceRunes"
       "TrimLeftSpace data = TrimSpace data @ concat after"
       "trailingSpace (TrimSpace data) = None"
    by (auto simp: TrimSpace_def)
  from b(2) a(2) have "data = concat before @ TrimSpace data @ concat after" by simp
  with b(1) a(1) have ex: "\<exists>before after.
        set before \<subseteq> set spaceRunes \<and> set after \<subseteq> set spaceRunes \<and>
        data = concat before @ TrimSpace data @ concat after"
    by blast
  have "\<not> prefix p (TrimSpace data)" if "p \<in> set spaceRunes" for p
  proof
    assume "prefix p (TrimSpace data)"
    then have "prefix p (TrimLeftSpace data)" by (subst a(2)) (rule prefix_prefix)
    with b(3) that show False by (simp add: leadingSpace_None)
  qed
  moreover have "\<not> suffix p (TrimSpace data)" if "p \<in> set spaceRunes" for p
    using a(3) that by (simp add: trailingSpace_None)
  ultimately show ?thesis using ex unfolding isTrimOf_def by blast
qed

subsection \<open>Content that is white space only\<close>

lemma spaceRunes_prefix_free_all:
  "list_all (\<lambda>p. list_all (\<lambda>q. \<not> prefix p q \<or> p = q) spaceRunes) spaceRunes"
  by code_simp

lemma spaceRunes_prefix_free:
  "p \<in> set spaceRunes \<Longrightarrow> q \<in> set spaceRunes \<Longrightarrow> prefix p q \<Longrightarrow> p = q"
  using spaceRunes_prefix_free_all unfolding list_all_iff by blast

lemma leadingSpace_append:
  assumes "p \<in> set spaceRunes"
  shows "leadingSpace (p @ s) = Some p"
proof -
  have "prefix p (p @ s)" by simp
  with assms have "\<exists>q\<in>set spaceRunes. prefix q (p @ s)" by blast
  then obtain q where q: "leadingSpace (p @ s) = Some q"
    unfolding leadingSpace_def by (cases "find (\<lambda>q. prefix q (p @ s)) spaceRunes") (auto simp: find_None_iff)
  from leadingSpace_Some [OF q] have "prefix q (p @ s)" "q \<in> set spaceRunes" by simp_all
  then have "prefix p q \<or> prefix q p"
    by (metis prefix_append prefix_order.dual_order.refl prefix_same_cases)
  with spaceRunes_prefix_free assms \<open>q \<in> set spaceRunes\<close> have "p = q" by blast
  with q show ?thesis by simp
qed

lemma TrimLeftSpace_spaces:
  "set ws \<subseteq> set spaceRunes \<Longrightarrow> TrimLeftSpace (concat ws @ s) = TrimLeftSpace s"
proof (induction ws)
  case Nil
  then show ?case by simp
next
  case (Cons p ws)
  then have p: "p \<in> set spaceRunes" and ws: "set ws \<subseteq> set spaceRunes" by simp_all
  have "TrimLeftSpace (p @ concat ws @ s) = TrimLeftSpace (concat ws @ s)"
    by (subst TrimLeftSpace.simps) (simp add: leadingSpace_append [OF p])
  with Cons.IH [OF ws] show ?case by simp
qed

lemma TrimLeftSpace_Nil: "TrimLeftSpace [] = []"
  by (subst TrimLeftSpace.simps) (simp add: leadingSpace_def spaceRunes_def)

lemma TrimSpace_spaces:
  assumes "set ws \<subseteq> set spaceRunes"
  shows "TrimSpace (concat ws) = []"
proof -
  from TrimLeftSpace_spaces [OF assms, of "[]"] have "TrimLeftSpace (concat ws) = []"
    by (simp add: TrimLeftSpace_Nil)
  then show ?thesis by (simp add: TrimSpace_def TrimRightSpace_Nil)
qed

lemma readMigrations_versions:
  assumes "readMigrations S m t = (t', Inr items)" "i < length items"
  shows "sint (Version (items ! i)) = int i + 1"
proof -
  from readMigrations_Inr [OF assms(1)] obtain raw where
    it: "items = sortSlice raw" and
    first: "items = [] \<or> Version (hd items) = 1" and
    sq: "sequential items = None"
    by blast
  have srt: "sorted (map (\<lambda>m. sint (Version m)) items)"
    unfolding it by (rule sortSlice_sorted)
  from assms(2) have "items \<noteq> []" by auto
  with first have "sint (Version (hd items)) = 1" by simp
  with sequential_versions [OF srt sq assms(2)] show ?thesis by simp
qed

subsection \<open>The members of the returned list\<close>

lemma readMigrations_member:
  assumes "readMigrations S m t = (t', Inr items)" "mg \<in> set items"
  shows "fromFile S (folder m) mg"
proof -
  from readMigrations_Inr [OF assms(1)] obtain raw where
    "\<forall>x\<in>set raw. fromFile S (folder m) x" "items = sortSlice raw"
    by blast
  with assms(2) show ?thesis by (simp add: sortSlice_set)
qed

lemma fromFile_data:
  assumes "fromFile S fsys mg"
  shows "\<exists>data. ReadFile fsys (Fname mg) = Inr data
           \<and> Statements mg = Split (TrimSpace data)
           \<and> Hash mg = computeHash S (TrimSpace data)"
  using assms by (auto simp: fromFile_def split: option.splits sum.splits)

subsection \<open>The log before the call does not matter to \<open>readMigrations\<close>\<close>

lemma readFiles_any_log:
  "readFiles S fsys files items t
     = (t @ fst (readFiles S fsys files items []), snd (readFiles S fsys files items []))"
proof (induction files arbitrary: items t)
  case Nil
  then show ?case by simp
next
  case (Cons name names)
  show ?case
  proof (cases "\<exists>idx v data. stringsIndex name ''_'' = Some idx \<and> Sscanf_d (take idx name) = Inr v
                  \<and> v \<noteq> 0 \<and> ReadFile fsys name = Inr data")
    case True
    then obtain idx v data where
      h: "stringsIndex name ''_'' = Some idx" "Sscanf_d (take idx name) = Inr v" "v \<noteq> 0"
         "ReadFile fsys name = Inr data"
      by blast
    define mg where "mg = \<lparr>Version = v, Fname = name, AppliedAt = None,
              Statements = Split (TrimSpace data), Hash = computeHash S (TrimSpace data)\<rparr>"
    from h have a: "readFiles S fsys (name # names) items u
        = readFiles S fsys names (items @ [mg]) (u @ [CallReadFile name])" for u
      by (simp add: Let_def mg_def)
    have l: "readFiles S fsys (name # names) items t
        = (t @ CallReadFile name # fst (readFiles S fsys names (items @ [mg]) []),
           snd (readFiles S fsys names (items @ [mg]) []))"
      unfolding a by (subst Cons.IH) simp
    have r: "readFiles S fsys (name # names) items []
        = (CallReadFile name # fst (readFiles S fsys names (items @ [mg]) []),
           snd (readFiles S fsys names (items @ [mg]) []))"
      unfolding a by (subst Cons.IH) simp
    show ?thesis unfolding l r by simp
  next
    case False
    then show ?thesis
      by (auto simp: Let_def split: option.splits sum.splits if_splits)
  qed
qed

lemma readMigrations_any_log:
  "readMigrations S m t = (t @ fst (readMigrations S m []), snd (readMigrations S m []))"
proof -
  have rf: "readFiles S (folder m) names [] (t @ [CallReadDir ''.''])
      = ((t @ [CallReadDir ''.'']) @ fst (readFiles S (folder m) names [] []),
         snd (readFiles S (folder m) names [] []))" for names
    by (rule readFiles_any_log)
  have rf0: "readFiles S (folder m) names [] [CallReadDir ''.'']
      = ([CallReadDir ''.''] @ fst (readFiles S (folder m) names [] []),
         snd (readFiles S (folder m) names [] []))" for names
    by (rule readFiles_any_log)
  show ?thesis
    unfolding readMigrations_def listFiles_def
    by (simp add: rf rf0 Let_def split: sum.splits prod.splits option.splits)
qed

subsection \<open>A gap in the versions\<close>

lemma sint_pred_eq:
  fixes a v :: "64 word"
  assumes "sint a = sint v - 1"
  shows "a = v - 1"
proof -
  have "a = word_of_int (sint a)" by simp
  also have "\<dots> = word_of_int (sint v - 1)" by (simp only: assms)
  also have "\<dots> = v - 1" by simp
  finally show ?thesis .
qed

lemma gap_rejected:
  assumes "readMigrations S m t = (t', Inr items)" "ReadDir (folder m) ''.'' = Inr entries"
  shows "\<not> hasGap (map Name entries)"
proof
  assume "hasGap (map Name entries)"
  then obtain f v where
    f: "f \<in> set (map Name entries)" "versionOf f = Some v" "1 <s v" and
    nobefore: "\<forall>g\<in>set (map Name entries). versionOf g \<noteq> Some (v - 1)"
    by (auto simp: hasGap_def split: option.splits)
  from readMigrations_Inr [OF assms(1)] assms(2) obtain raw where
    names: "map Fname raw = map Name entries" and
    ff: "\<forall>mg\<in>set raw. fromFile S (folder m) mg" and
    it: "items = sortSlice raw"
    by auto
  from f(1) names obtain mg where mg: "mg \<in> set raw" "Fname mg = f"
    by (metis (no_types, lifting) imageE list.set_map)
  with ff f(2) have ver: "Version mg = v" by (auto simp: fromFile_def split: option.splits)
  from mg(1) it have "mg \<in> set items" by (simp add: sortSlice_set)
  then obtain i where i: "i < length items" "items ! i = mg" by (auto simp: in_set_conv_nth)
  from readMigrations_versions [OF assms(1) i(1)] i(2) ver have sv: "sint v = int i + 1" by simp
  from f(3) have "1 < sint v" by (simp add: word_sless_alt)
  with sv have pos: "0 < i" by simp
  then have j: "i - 1 < length items" using i(1) by simp
  from readMigrations_versions [OF assms(1) j] pos sv
  have "sint (Version (items ! (i - 1))) = sint v - 1" by simp
  then have before: "Version (items ! (i - 1)) = v - 1" by (rule sint_pred_eq)
  from j it have mem: "items ! (i - 1) \<in> set raw" using nth_mem [OF j] by (simp add: sortSlice_set)
  with ff have "fromFile S (folder m) (items ! (i - 1))" by blast
  with before have "versionOf (Fname (items ! (i - 1))) = Some (v - 1)"
    by (auto simp: fromFile_def split: option.splits)
  moreover from mem names have "Fname (items ! (i - 1)) \<in> set (map Name entries)"
    by (metis image_eqI list.set_map)
  ultimately show False using nobefore by blast
qed

subsection \<open>The validation loops\<close>

lemma dialectPairs_append: "dialectPairs a \<Longrightarrow> dialectPairs (a @ b) = dialectPairs b"
  by (induction a rule: dialectPairs.induct) simp_all

lemma queriesOf_append: "queriesOf (a @ b) = queriesOf a @ queriesOf b"
  by (induction a rule: queriesOf.induct) simp_all

lemma problemFree_append: "problemFree (a @ b) \<longleftrightarrow> problemFree a \<and> problemFree b"
  by (induction a rule: problemFree.induct) simp_all

lemma dialectPairs_isValidation: "dialectPairs cs \<Longrightarrow> \<forall>c\<in>set cs. isValidation c"
  by (induction cs rule: dialectPairs.induct) (simp_all add: isValidation_def)

lemma validateStatements_spec:
  assumes "validateStatements m qv name stmts t = (t', r)" "qvalidator m = Some qv'"
  shows "\<exists>cs. t' = t @ cs \<and> validated m stmts cs r"
  using assms(1)
proof (induction stmts arbitrary: t)
  case Nil
  then show ?case by (simp add: validated_def assms(2))
next
  case (Cons q stmts)
  define d where "d = Dialect (driver m) t"
  define a where "a = ValidateQuery qv (t @ [CallDialect d]) d q"
  show ?case
  proof (cases a)
    case None
    with Cons.prems have
      "validateStatements m qv name stmts (t @ [CallDialect d, CallValidateQuery d q None]) = (t', r)"
      by (simp add: Let_def d_def a_def)
    from Cons.IH [OF this] obtain cs where
      cs: "t' = (t @ [CallDialect d, CallValidateQuery d q None]) @ cs" "validated m stmts cs r"
      by blast
    from cs(2) have "validated m (q # stmts) ([CallDialect d, CallValidateQuery d q None] @ cs) r"
      by (cases r) (simp_all add: validated_def assms(2))
    with cs(1) show ?thesis by (intro exI [of _ "[CallDialect d, CallValidateQuery d q None] @ cs"]) simp
  next
    case (Some e)
    with Cons.prems have
      "t' = t @ [CallDialect d, CallValidateQuery d q (Some e)]"
      "r = Some (Errorf (name @ '': '' @ Error ErrInvalidQuery @ '' '' @ Error e) ErrInvalidQuery)"
      by (simp_all add: Let_def d_def a_def)
    then show ?thesis
      by (intro exI [of _ "[CallDialect d, CallValidateQuery d q (Some e)]"])
         (simp add: validated_def assms(2))
  qed
qed

lemma validate_spec:
  assumes "validate m mg t = (t', r)" "Statements mg \<noteq> []"
  shows "\<exists>cs. t' = t @ cs \<and> validated m (Statements mg) cs r"
proof (cases "qvalidator m")
  case None
  with assms have "t' = t" "r = None" by (simp_all add: validate_def)
  with None show ?thesis by (intro exI [of _ "[]"]) (simp add: validated_def)
next
  case (Some qv)
  with assms have "validateStatements m qv (Fname mg) (Statements mg) t = (t', r)"
    by (simp add: validate_def)
  from validateStatements_spec [OF this Some] show ?thesis .
qed

lemma validateAll_spec:
  assumes "validateAll m ms t = (t', r)" "\<forall>mg\<in>set ms. Statements mg \<noteq> []"
  shows "\<exists>cs. t' = t @ cs \<and> validated m (concat (map Statements ms)) cs r"
  using assms
proof (induction ms arbitrary: t)
  case Nil
  then show ?case by (simp add: validated_def split: option.splits)
next
  case (Cons mg ms)
  obtain t1 r1 where v: "validate m mg t = (t1, r1)" by (cases "validate m mg t")
  from Cons.prems(2) have ne: "Statements mg \<noteq> []" and rest: "\<forall>x\<in>set ms. Statements x \<noteq> []"
    by simp_all
  from validate_spec [OF v ne] obtain cs1 where
    cs1: "t1 = t @ cs1" "validated m (Statements mg) cs1 r1" by blast
  show ?case
  proof (cases r1)
    case None
    with Cons.prems(1) v have "validateAll m ms t1 = (t', r)" by simp
    from Cons.IH [OF this rest] obtain cs2 where
      cs2: "t' = t1 @ cs2" "validated m (concat (map Statements ms)) cs2 r" by blast
    from cs1(2) None have p1: "dialectPairs cs1" "problemFree cs1"
      "queriesOf cs1 = (case qvalidator m of None \<Rightarrow> [] | Some qv \<Rightarrow> Statements mg)"
      by (simp_all add: validated_def)
    from cs2(2) p1 have "validated m (concat (map Statements (mg # ms))) (cs1 @ cs2) r"
      by (cases r; cases "qvalidator m")
         (simp_all add: validated_def dialectPairs_append queriesOf_append problemFree_append)
    with cs1(1) cs2(1) show ?thesis by (intro exI [of _ "cs1 @ cs2"]) simp
  next
    case (Some e)
    with Cons.prems(1) v have "t' = t1" "r = Some e" by simp_all
    moreover from cs1(2) Some have "validated m (concat (map Statements (mg # ms))) cs1 (Some e)"
      by (simp add: validated_def)
    ultimately show ?thesis using cs1(1) by (intro exI [of _ cs1]) simp
  qed
qed

subsection \<open>The consistency check and the steps of \<open>Migrate\<close>\<close>

lemma inSync_iff:
  "length applied \<le> length loc \<Longrightarrow>
   inSync applied loc =
     (if \<exists>i<length applied. Version (applied ! i) \<noteq> Version (loc ! i) \<or> Hash (applied ! i) \<noteq> Hash (loc ! i)
      then Some (Errorf_w_s ErrInvalidMigrationFile ''local migrations are not in sync with applied migrations'')
      else None)"
proof (induction applied loc rule: inSync.induct)
  case (1 localMigrations)
  then show ?case by simp
next
  case (2 applied appliedMigrations)
  then show ?case by simp
next
  case (3 a as l ls)
  let ?bad = "\<lambda>xs ys i. Version (xs ! i) \<noteq> Version (ys ! i) \<or> Hash (xs ! i) \<noteq> Hash (ys ! i)"
  have ex: "(\<exists>i<length (a # as). ?bad (a # as) (l # ls) i)
              \<longleftrightarrow> ?bad (a # as) (l # ls) 0 \<or> (\<exists>i<length as. ?bad as ls i)"
    by (auto simp: less_Suc_eq_0_disj)
  show ?case
  proof (cases "Version a \<noteq> Version l \<or> Hash a \<noteq> Hash l")
    case True
    then show ?thesis unfolding ex by auto
  next
    case False
    with 3 have "inSync as ls = (if \<exists>i<length as. ?bad as ls i then Some (Errorf_w_s ErrInvalidMigrationFile ''local migrations are not in sync with applied migrations'') else None)"
      by simp
    with False show ?thesis unfolding ex by simp
  qed
qed

text \<open>Behind the length check of \<open>Migrate\<close> the loop never reads past the local slice.\<close>

lemma inSync_no_panic:
  "length applied \<le> length loc \<Longrightarrow> inSync applied loc \<noteq> Some (Panic s)"
  by (simp add: inSync_iff Errorf_w_s_def)

lemma inSync_consistentPrefix:
  "consistentPrefix applied loc \<Longrightarrow> inSync applied loc = None"
  by (simp add: consistentPrefix_def inSync_iff)

lemma Migrate_after_select:
  assumes "CreateMigrationsTable (driver m) [] (migrationsTable m) = None"
    and "readMigrations S m [CallCreateMigrationsTable (migrationsTable m)] = (t2, Inr loc)"
    and "SelectMigrations (driver m) t2 (migrationsTable m) = Inr applied"
  shows "Migrate S m =
     (let t3 = t2 @ [CallSelectMigrations (migrationsTable m)]
      in if length loc < length applied
         then (t3, Some (Errorf_w_s ErrInvalidMigrationFile
                           ''local migrations are less than applied migrations''))
         else
           (case inSync applied loc of
              Some err \<Rightarrow> (t3, Some err)
            | None \<Rightarrow>
               (let toApply = drop (length applied) loc
                in if length toApply = 0 then (t3, None)
                   else
                     (case validateAll m toApply t3 of
                        (t4, Some err) \<Rightarrow> (t4, Some err)
                      | (t4, None) \<Rightarrow>
                         (t4 @ [CallApplyMigrations (migrationsTable m) (inTransaction m) toApply],
                          ApplyMigrations (driver m) t4 (migrationsTable m)
                            (inTransaction m) toApply)))))"
  using assms by (simp add: Migrate_def Let_def)

lemma readMigrations_statements:
  assumes "readMigrations S m t = (t', Inr items)"
  shows "\<forall>mg\<in>set items. Statements mg \<noteq> []"
proof
  fix mg assume "mg \<in> set items"
  from readMigrations_member [OF assms this] have "fromFile S (folder m) mg" .
  from fromFile_data [OF this] obtain data where "Statements mg = Split (TrimSpace data)"
    by blast
  then show "Statements mg \<noteq> []" by (simp add: Split_not_Nil)
qed

lemma no_apply_before_validation:
  assumes "readMigrations S m [CallCreateMigrationsTable tbl] = (t2, r)"
  shows "\<not> (\<exists>c\<in>set (t2 @ [CallSelectMigrations tbl]). isApply c)"
proof -
  from readMigrations_log [OF assms] obtain cs where
    "t2 = [CallCreateMigrationsTable tbl] @ cs" "\<forall>c\<in>set cs. isRead c" by blast
  then show ?thesis by (auto simp: isApply_def isRead_def split: call.splits)
qed

lemma validation_no_apply:
  assumes "dialectPairs cs"
  shows "\<not> (\<exists>c\<in>set cs. isApply c)"
  using dialectPairs_isValidation [OF assms]
  by (auto simp: isApply_def isValidation_def split: call.splits)

lemma no_apply_member:
  assumes "\<not> (\<exists>c\<in>set l. isApply c)"
  shows "CallApplyMigrations tbl inTx batch \<notin> set l"
proof
  assume "CallApplyMigrations tbl inTx batch \<in> set l"
  moreover have "isApply (CallApplyMigrations tbl inTx batch)" by (simp add: isApply_def)
  ultimately show False using assms by blast
qed

lemma Migrate_consistent:
  assumes "CreateMigrationsTable (driver m) [] (migrationsTable m) = None"
    and "readMigrations S m [CallCreateMigrationsTable (migrationsTable m)] = (t2, Inr loc)"
    and "SelectMigrations (driver m) t2 (migrationsTable m) = Inr applied"
    and "consistentPrefix applied loc"
  shows "Migrate S m =
     (if drop (length applied) loc = [] then (t2 @ [CallSelectMigrations (migrationsTable m)], None)
      else
        (case validateAll m (drop (length applied) loc)
                (t2 @ [CallSelectMigrations (migrationsTable m)]) of
           (t4, Some err) \<Rightarrow> (t4, Some err)
         | (t4, None) \<Rightarrow>
            (t4 @ [CallApplyMigrations (migrationsTable m) (inTransaction m)
                     (drop (length applied) loc)],
             ApplyMigrations (driver m) t4 (migrationsTable m) (inTransaction m)
               (drop (length applied) loc))))"
proof -
  from assms(4) have "\<not> length loc < length applied" by (simp add: consistentPrefix_def)
  with Migrate_after_select [OF assms(1-3)] inSync_consistentPrefix [OF assms(4)]
  show ?thesis by (simp add: Let_def)
qed

lemma Migrate_validation:
  assumes "CreateMigrationsTable (driver m) [] (migrationsTable m) = None"
    and "readMigrations S m [CallCreateMigrationsTable (migrationsTable m)] = (t2, Inr loc)"
    and "SelectMigrations (driver m) t2 (migrationsTable m) = Inr applied"
    and "consistentPrefix applied loc"
    and "drop (length applied) loc \<noteq> []"
  shows "\<exists>cs r. validated m (concat (map Statements (drop (length applied) loc))) cs r \<and>
           Migrate S m =
             (case r of
                None \<Rightarrow>
                  (t2 @ [CallSelectMigrations (migrationsTable m)] @ cs
                      @ [CallApplyMigrations (migrationsTable m) (inTransaction m)
                           (drop (length applied) loc)],
                   ApplyMigrations (driver m) (t2 @ [CallSelectMigrations (migrationsTable m)] @ cs)
                     (migrationsTable m) (inTransaction m) (drop (length applied) loc))
              | Some err \<Rightarrow> (t2 @ [CallSelectMigrations (migrationsTable m)] @ cs, Some err))"
proof -
  let ?t3 = "t2 @ [CallSelectMigrations (migrationsTable m)]"
  let ?toApply = "drop (length applied) loc"
  obtain t4 r where v: "validateAll m ?toApply ?t3 = (t4, r)"
    by (cases "validateAll m ?toApply ?t3")
  have "\<forall>mg\<in>set ?toApply. Statements mg \<noteq> []"
    using readMigrations_statements [OF assms(2)] set_drop_subset [of "length applied" loc]
    by blast
  from validateAll_spec [OF v this] obtain cs where
    cs: "t4 = ?t3 @ cs" "validated m (concat (map Statements ?toApply)) cs r" by blast
  from Migrate_consistent [OF assms(1-4)] assms(5) v cs(1)
  have "Migrate S m =
             (case r of
                None \<Rightarrow>
                  (t2 @ [CallSelectMigrations (migrationsTable m)] @ cs
                      @ [CallApplyMigrations (migrationsTable m) (inTransaction m) ?toApply],
                   ApplyMigrations (driver m) (t2 @ [CallSelectMigrations (migrationsTable m)] @ cs)
                     (migrationsTable m) (inTransaction m) ?toApply)
              | Some err \<Rightarrow> (t2 @ [CallSelectMigrations (migrationsTable m)] @ cs, Some err))"
    by (cases r) simp_all
  with cs(2) show ?thesis by blast
qed

subsection \<open>Example runs\<close>

lemma readMigrations_twoFS:
  "readMigrations id (newMigrator d twoFS) []
     = ([CallReadDir ''.'', CallReadFile ''1_init.sql'', CallReadFile ''2_users.sql''],
        Inr twoItems)"
  by code_simp

lemma readMigrations_blankFS:
  "readMigrations id (newMigrator d blankFS) []
     = ([CallReadDir ''.'', CallReadFile ''1_blank.sql''], Inr [blankItem])"
  by code_simp

lemma readMigrations_demoFS:
  "readMigrations Sum256 (newMigrator d demoFS) []
     = ([CallReadDir ''.'', CallReadFile ''1_demo.sql''], Inr [demoItem Sum256])"
  by code_simp

lemma newMigrator_simps [simp]:
  "driver (newMigrator d fsys) = d"
  "migrationsTable (newMigrator d fsys) = ''schema_migrations''"
  "folder (newMigrator d fsys) = fsys"
  "qvalidator (newMigrator d fsys) = None"
  "inTransaction (newMigrator d fsys) = False"
  by (simp_all add: newMigrator_def)

lemma storeWith_simps [simp]:
  "CreateMigrationsTable (storeWith applied) t tbl = None"
  "SelectMigrations (storeWith applied) t tbl = Inr applied"
  "CreateMigrationsTable emptyStore t tbl = None"
  "SelectMigrations emptyStore t tbl = Inr []"
  by (simp_all add: storeWith_def emptyStore_def)

lemma readMigrations_twoFS_after_create:
  "readMigrations id (newMigrator d twoFS) [CallCreateMigrationsTable ''schema_migrations'']
     = ([CallCreateMigrationsTable ''schema_migrations'', CallReadDir ''.'',
         CallReadFile ''1_init.sql'', CallReadFile ''2_users.sql''], Inr twoItems)"
  by (subst readMigrations_any_log) (simp add: readMigrations_twoFS)

lemma mStrict_simps [simp]:
  "driver mStrict = emptyStore"
  "migrationsTable mStrict = ''schema_migrations''"
  "folder mStrict = twoFS"
  "qvalidator mStrict = Some strictValidator"
  "inTransaction mStrict = False"
  by (simp_all add: mStrict_def newMigrator_def)

lemma readMigrations_mStrict:
  "readMigrations id mStrict [CallCreateMigrationsTable ''schema_migrations''] = (twoLog, Inr twoItems)"
  by code_simp

lemma Migrate_gapFS:
  "Migrate id (newMigrator emptyStore gapFS)
     = ([CallCreateMigrationsTable ''schema_migrations'', CallReadDir ''.'',
         CallReadFile ''1_x.sql'', CallReadFile ''3_y.sql''],
        Some (Errorf ''invalid migration file: migrations must have sequential versions (1_x.sql - 3_y.sql)''
                ErrInvalidMigrationFile))"
  by code_simp

lemma hasGap_gapFS: "hasGap (map Name [sqlFile ''1_x.sql'', sqlFile ''3_y.sql''])"
  by code_simp

subsection \<open>The consistency check\<close>

text \<open>
  C1. Let the table creation succeed, \<open>readMigrations\<close> return the local migrations and
  the store return the applied ones. If there are fewer local than applied migrations, or
  at some index below the number of applied migrations the version or the hash of the
  applied migration differs from the local one's, \<open>Migrate\<close> returns an error that is
  \<open>ErrInvalidMigrationFile\<close>, right after the \<open>SelectMigrations\<close> call. Otherwise the check
  raises no error and the run goes on with the migrations not yet applied: it ends with
  success if there is none, and with their validation and application if there are some.
\<close>

theorem C1_consistency_check:
  assumes "CreateMigrationsTable (driver m) [] (migrationsTable m) = None"
    and "readMigrations Sum256 m [CallCreateMigrationsTable (migrationsTable m)] = (t2, Inr loc)"
    and "SelectMigrations (driver m) t2 (migrationsTable m) = Inr applied"
  shows "((length loc < length applied
            \<or> (\<exists>i<length applied. Version (applied ! i) \<noteq> Version (loc ! i)
                                   \<or> Hash (applied ! i) \<noteq> Hash (loc ! i)))
          \<longrightarrow> (\<exists>e. Migrate Sum256 m = (t2 @ [CallSelectMigrations (migrationsTable m)], Some e)
                  \<and> errorsIs e ErrInvalidMigrationFile))
       \<and> (\<not> (length loc < length applied
              \<or> (\<exists>i<length applied. Version (applied ! i) \<noteq> Version (loc ! i)
                                     \<or> Hash (applied ! i) \<noteq> Hash (loc ! i)))
          \<longrightarrow> Migrate Sum256 m =
                (let t3 = t2 @ [CallSelectMigrations (migrationsTable m)];
                     toApply = drop (length applied) loc
                 in if length toApply = 0 then (t3, None)
                    else
                      (case validateAll m toApply t3 of
                         (t4, Some err) \<Rightarrow> (t4, Some err)
                       | (t4, None) \<Rightarrow>
                          (t4 @ [CallApplyMigrations (migrationsTable m) (inTransaction m) toApply],
                           ApplyMigrations (driver m) t4 (migrationsTable m)
                             (inTransaction m) toApply))))"
proof (intro conjI impI)
  assume bad: "length loc < length applied
            \<or> (\<exists>i<length applied. Version (applied ! i) \<noteq> Version (loc ! i)
                                   \<or> Hash (applied ! i) \<noteq> Hash (loc ! i))"
  show "\<exists>e. Migrate Sum256 m = (t2 @ [CallSelectMigrations (migrationsTable m)], Some e)
                  \<and> errorsIs e ErrInvalidMigrationFile"
  proof (cases "length loc < length applied")
    case True
    with Migrate_after_select [OF assms]
    have "Migrate Sum256 m = (t2 @ [CallSelectMigrations (migrationsTable m)],
            Some (Errorf_w_s ErrInvalidMigrationFile
                           ''local migrations are less than applied migrations''))"
      by (simp add: Let_def)
    then show ?thesis by (intro exI conjI) (assumption, rule errorsIs_Errorf_w_s)
  next
    case False
    then have le: "length applied \<le> length loc" by simp
    from bad False have "\<exists>i<length applied. Version (applied ! i) \<noteq> Version (loc ! i)
                                   \<or> Hash (applied ! i) \<noteq> Hash (loc ! i)"
      by blast
    with inSync_iff [OF le] have "inSync applied loc = Some (Errorf_w_s ErrInvalidMigrationFile
        ''local migrations are not in sync with applied migrations'')"
      by (simp only: if_True)
    with Migrate_after_select [OF assms] False
    have "Migrate Sum256 m = (t2 @ [CallSelectMigrations (migrationsTable m)],
            Some (Errorf_w_s ErrInvalidMigrationFile
                           ''local migrations are not in sync with applied migrations''))"
      by (simp add: Let_def)
    then show ?thesis by (intro exI conjI) (assumption, rule errorsIs_Errorf_w_s)
  qed
next
  assume good: "\<not> (length loc < length applied
              \<or> (\<exists>i<length applied. Version (applied ! i) \<noteq> Version (loc ! i)
                                     \<or> Hash (applied ! i) \<noteq> Hash (loc ! i)))"
  then have le: "length applied \<le> length loc" and nl: "\<not> length loc < length applied" and
    noex: "\<not> (\<exists>i<length applied. Version (applied ! i) \<noteq> Version (loc ! i)
                                     \<or> Hash (applied ! i) \<noteq> Hash (loc ! i))"
    by simp_all
  from inSync_iff [OF le] noex have "inSync applied loc = None" by (simp only: if_False)
  with Migrate_after_select [OF assms] nl
  show "Migrate Sum256 m =
                (let t3 = t2 @ [CallSelectMigrations (migrationsTable m)];
                     toApply = drop (length applied) loc
                 in if length toApply = 0 then (t3, None)
                    else
                      (case validateAll m toApply t3 of
                         (t4, Some err) \<Rightarrow> (t4, Some err)
                       | (t4, None) \<Rightarrow>
                          (t4 @ [CallApplyMigrations (migrationsTable m) (inTransaction m) toApply],
                           ApplyMigrations (driver m) t4 (migrationsTable m)
                             (inTransaction m) toApply)))"
    by (simp add: Let_def)
qed

theorem C1_consistency_check_witness:
  "CreateMigrationsTable (driver mTampered) [] (migrationsTable mTampered) = None
   \<and> readMigrations id mTampered [CallCreateMigrationsTable (migrationsTable mTampered)]
       = (twoLog, Inr twoItems)
   \<and> SelectMigrations (driver mTampered) twoLog (migrationsTable mTampered) = Inr tampered
   \<and> Hash (tampered ! 0) \<noteq> Hash (twoItems ! 0)
   \<and> (\<exists>e. Migrate id mTampered
              = (twoLog @ [CallSelectMigrations (migrationsTable mTampered)], Some e)
            \<and> errorsIs e ErrInvalidMigrationFile)"
proof -
  have h1: "CreateMigrationsTable (driver mTampered) [] (migrationsTable mTampered) = None"
    by (simp add: mTampered_def)
  have h2: "readMigrations id mTampered [CallCreateMigrationsTable (migrationsTable mTampered)]
       = (twoLog, Inr twoItems)"
    by (simp add: mTampered_def twoLog_def readMigrations_twoFS_after_create)
  have h3: "SelectMigrations (driver mTampered) twoLog (migrationsTable mTampered) = Inr tampered"
    by (simp add: mTampered_def)
  have ne: "Hash (tampered ! 0) \<noteq> Hash (twoItems ! 0)" by code_simp
  have "0 < length tampered" by (simp add: tampered_def)
  with ne have bad: "length twoItems < length tampered
            \<or> (\<exists>i<length tampered. Version (tampered ! i) \<noteq> Version (twoItems ! i)
                                   \<or> Hash (tampered ! i) \<noteq> Hash (twoItems ! i))"
    by blast
  from C1_consistency_check [OF h1 h2 h3, THEN conjunct1, rule_format, OF bad]
  have "\<exists>e. Migrate id mTampered
              = (twoLog @ [CallSelectMigrations (migrationsTable mTampered)], Some e)
            \<and> errorsIs e ErrInvalidMigrationFile" .
  with h1 h2 h3 ne show ?thesis by (intro conjI)
qed

subsection \<open>The batch handed to the store\<close>

text \<open>
  C2. Let the applied migrations be a prefix of the local ones by version and hash. Then
  every \<open>ApplyMigrations\<close> call in the log of \<open>Migrate\<close> carries as its batch the local
  list without its first \<open>length applied\<close> entries, in the same order. If that rest is
  empty, \<open>Migrate\<close> returns success and the log holds no \<open>ApplyMigrations\<close> call. If it is
  not empty, the log ends with the one \<open>ApplyMigrations\<close> call of the run, unless the
  validation failed with \<open>ErrInvalidQuery\<close>, in which case there is none.
\<close>

theorem C2_batch_is_unapplied_suffix:
  assumes "CreateMigrationsTable (driver m) [] (migrationsTable m) = None"
    and "readMigrations Sum256 m [CallCreateMigrationsTable (migrationsTable m)] = (t2, Inr loc)"
    and "SelectMigrations (driver m) t2 (migrationsTable m) = Inr applied"
    and "length applied \<le> length loc"
    and "\<forall>i<length applied. Version (applied ! i) = Version (loc ! i)
                             \<and> Hash (applied ! i) = Hash (loc ! i)"
  shows "(\<forall>tbl inTx batch.
            CallApplyMigrations tbl inTx batch \<in> set (fst (Migrate Sum256 m))
            \<longrightarrow> batch = drop (length applied) loc)
       \<and> (drop (length applied) loc = []
            \<longrightarrow> snd (Migrate Sum256 m) = None
                \<and> \<not> (\<exists>c\<in>set (fst (Migrate Sum256 m)). isApply c))
       \<and> (drop (length applied) loc \<noteq> []
            \<longrightarrow> (\<exists>log. fst (Migrate Sum256 m)
                         = log @ [CallApplyMigrations (migrationsTable m) (inTransaction m)
                                    (drop (length applied) loc)]
                       \<and> \<not> (\<exists>c\<in>set log. isApply c))
                \<or> (\<exists>err. snd (Migrate Sum256 m) = Some err \<and> errorsIs err ErrInvalidQuery
                       \<and> \<not> (\<exists>c\<in>set (fst (Migrate Sum256 m)). isApply c)))"
proof -
  let ?t3 = "t2 @ [CallSelectMigrations (migrationsTable m)]"
  let ?toApply = "drop (length applied) loc"
  from assms(4,5) have cp: "consistentPrefix applied loc" by (simp add: consistentPrefix_def)
  note before = no_apply_before_validation [OF assms(2)]
  show ?thesis
  proof (cases "?toApply = []")
    case True
    with Migrate_consistent [OF assms(1-3) cp] have mg: "Migrate Sum256 m = (?t3, None)" by simp
    with before have "\<not> (\<exists>c\<in>set (fst (Migrate Sum256 m)). isApply c)" by simp
    moreover from no_apply_member [OF this] have "\<forall>tbl inTx batch.
            CallApplyMigrations tbl inTx batch \<in> set (fst (Migrate Sum256 m))
            \<longrightarrow> batch = ?toApply"
      by blast
    ultimately show ?thesis using True mg by simp
  next
    case False
    from Migrate_validation [OF assms(1-3) cp False] obtain cs r where
      v: "validated m (concat (map Statements ?toApply)) cs r" and
      mg: "Migrate Sum256 m =
             (case r of
                None \<Rightarrow>
                  (t2 @ [CallSelectMigrations (migrationsTable m)] @ cs
                      @ [CallApplyMigrations (migrationsTable m) (inTransaction m) ?toApply],
                   ApplyMigrations (driver m) (t2 @ [CallSelectMigrations (migrationsTable m)] @ cs)
                     (migrationsTable m) (inTransaction m) ?toApply)
              | Some err \<Rightarrow> (t2 @ [CallSelectMigrations (migrationsTable m)] @ cs, Some err))"
      by blast
    from v have "dialectPairs cs" by (simp add: validated_def)
    from validation_no_apply [OF this] before
    have clean: "\<not> (\<exists>c\<in>set (?t3 @ cs). isApply c)" by auto
    show ?thesis
    proof (cases r)
      case None
      with mg have log: "fst (Migrate Sum256 m)
          = (?t3 @ cs) @ [CallApplyMigrations (migrationsTable m) (inTransaction m) ?toApply]"
        by simp
      with no_apply_member [OF clean] have "\<forall>tbl inTx batch.
            CallApplyMigrations tbl inTx batch \<in> set (fst (Migrate Sum256 m))
            \<longrightarrow> batch = ?toApply"
        by auto
      moreover from log clean have "\<exists>log. fst (Migrate Sum256 m)
            = log @ [CallApplyMigrations (migrationsTable m) (inTransaction m) ?toApply]
          \<and> \<not> (\<exists>c\<in>set log. isApply c)"
        by blast
      ultimately show ?thesis using False by simp
    next
      case (Some err)
      with mg have res: "Migrate Sum256 m = (?t3 @ cs, Some err)" by simp
      from v Some have "errorsIs err ErrInvalidQuery" by (simp add: validated_def)
      with res clean have "\<exists>err. snd (Migrate Sum256 m) = Some err \<and> errorsIs err ErrInvalidQuery
                       \<and> \<not> (\<exists>c\<in>set (fst (Migrate Sum256 m)). isApply c)"
        by simp
      moreover from res no_apply_member [OF clean] have "\<forall>tbl inTx batch.
            CallApplyMigrations tbl inTx batch \<in> set (fst (Migrate Sum256 m))
            \<longrightarrow> batch = ?toApply"
        by auto
      ultimately show ?thesis using False by simp
    qed
  qed
qed

theorem C2_batch_is_unapplied_suffix_witness:
  "CreateMigrationsTable (driver mFirst) [] (migrationsTable mFirst) = None
   \<and> readMigrations id mFirst [CallCreateMigrationsTable (migrationsTable mFirst)]
       = (twoLog, Inr twoItems)
   \<and> SelectMigrations (driver mFirst) twoLog (migrationsTable mFirst) = Inr firstApplied
   \<and> length firstApplied \<le> length twoItems
   \<and> Version (firstApplied ! 0) = Version (twoItems ! 0)
   \<and> Hash (firstApplied ! 0) = Hash (twoItems ! 0)
   \<and> drop (length firstApplied) twoItems = [twoItems ! 1]
   \<and> Migrate id mFirst
       = (twoLog @ [CallSelectMigrations ''schema_migrations'',
                    CallApplyMigrations ''schema_migrations'' False [twoItems ! 1]], None)
   \<and> (\<exists>log. fst (Migrate id mFirst)
               = log @ [CallApplyMigrations (migrationsTable mFirst) (inTransaction mFirst)
                          (drop (length firstApplied) twoItems)]
             \<and> \<not> (\<exists>c\<in>set log. isApply c))"
proof -
  have h1: "CreateMigrationsTable (driver mFirst) [] (migrationsTable mFirst) = None"
    by (simp add: mFirst_def)
  have h2: "readMigrations id mFirst [CallCreateMigrationsTable (migrationsTable mFirst)]
       = (twoLog, Inr twoItems)"
    by (simp add: mFirst_def twoLog_def readMigrations_twoFS_after_create)
  have h3: "SelectMigrations (driver mFirst) twoLog (migrationsTable mFirst) = Inr firstApplied"
    by (simp add: mFirst_def)
  have len: "length firstApplied = 1" "length twoItems = 2"
    by (simp_all add: firstApplied_def twoItems_def)
  then have h4: "length firstApplied \<le> length twoItems" by simp
  have v: "Version (firstApplied ! 0) = Version (twoItems ! 0)"
    and h: "Hash (firstApplied ! 0) = Hash (twoItems ! 0)"
    by (simp_all add: firstApplied_def twoItems_def)
  from v h len have h5: "\<forall>i<length firstApplied. Version (firstApplied ! i) = Version (twoItems ! i)
                             \<and> Hash (firstApplied ! i) = Hash (twoItems ! i)"
    by simp
  have d: "drop (length firstApplied) twoItems = [twoItems ! 1]"
    by (simp add: firstApplied_def twoItems_def)
  have run: "Migrate id mFirst
       = (twoLog @ [CallSelectMigrations ''schema_migrations'',
                    CallApplyMigrations ''schema_migrations'' False [twoItems ! 1]], None)"
    by code_simp
  from run have ok: "snd (Migrate id mFirst) = None" by simp
  from d have ne: "drop (length firstApplied) twoItems \<noteq> []" by simp
  from C2_batch_is_unapplied_suffix [OF h1 h2 h3 h4 h5] ne ok
  have "\<exists>log. fst (Migrate id mFirst)
               = log @ [CallApplyMigrations (migrationsTable mFirst) (inTransaction mFirst)
                          (drop (length firstApplied) twoItems)]
             \<and> \<not> (\<exists>c\<in>set log. isApply c)"
    by simp
  with h1 h2 h3 h4 v h d run show ?thesis by (intro conjI)
qed

subsection \<open>A file of white space only\<close>

text \<open>
  C3. \<open>validate\<close> means to reject a migration without statements (\<open>... is empty\<close>), but
  the content of a file that is empty or white space only is split into the one statement
  \<open>""\<close>, so the check never fires. The run on a folder whose only file \<open>1_blank.sql\<close>
  holds two blanks and a newline, with a store that has nothing applied: \<open>Migrate\<close> returns
  success and hands the migration with the single empty statement to \<open>ApplyMigrations\<close>.
\<close>

theorem C3_blank_file_is_applied:
  "Migrate Sum256 (newMigrator emptyStore blankFS)
     = ([CallCreateMigrationsTable ''schema_migrations'', CallReadDir ''.'',
         CallReadFile ''1_blank.sql'', CallSelectMigrations ''schema_migrations'',
         CallApplyMigrations ''schema_migrations'' False
           [\<lparr>Version = 1, Fname = ''1_blank.sql'', AppliedAt = None, Statements = [[]],
             Hash = Sprintf_x (Sum256 [])\<rparr>]],
        None)"
  by code_simp

subsection \<open>A gap in the versions is rejected after the table creation\<close>

text \<open>
  C4. \<open>Migrate\<close> creates the tracking table first and reads the folder second. For a
  folder with a gap in the versions, once \<open>CreateMigrationsTable\<close> has succeeded, and
  provided the folder can be listed, holds no directory and every file can be read,
  \<open>Migrate\<close> returns an error that is \<open>ErrInvalidMigrationFile\<close>; the log starts with the
  \<open>CreateMigrationsTable\<close> call and holds after it only reads of the file system: no
  \<open>SelectMigrations\<close>, no \<open>ApplyMigrations\<close> and no validator call is made.
\<close>

theorem C4_gap_rejected_after_table_creation:
  assumes "CreateMigrationsTable (driver m) [] (migrationsTable m) = None"
    and "ReadDir (folder m) ''.'' = Inr entries"
    and "\<forall>x\<in>set entries. \<not> IsDir x"
    and "\<forall>x\<in>set entries. \<exists>data. ReadFile (folder m) (Name x) = Inr data"
    and "hasGap (map Name entries)"
  shows "\<exists>log e. Migrate Sum256 m = (CallCreateMigrationsTable (migrationsTable m) # log, Some e)
                \<and> errorsIs e ErrInvalidMigrationFile
                \<and> (\<forall>c\<in>set log. isRead c)"
proof -
  obtain t2 r where rm: "readMigrations Sum256 m [CallCreateMigrationsTable (migrationsTable m)] = (t2, r)"
    by (cases "readMigrations Sum256 m [CallCreateMigrationsTable (migrationsTable m)]")
  from readMigrations_log [OF rm] obtain log where
    log: "t2 = [CallCreateMigrationsTable (migrationsTable m)] @ log" "\<forall>c\<in>set log. isRead c"
    by blast
  show ?thesis
  proof (cases r)
    case (Inl e)
    with rm have rm': "readMigrations Sum256 m [CallCreateMigrationsTable (migrationsTable m)] = (t2, Inl e)"
      by simp
    from readMigrations_Inl [OF rm' assms(2,3,4)] have "errorsIs e ErrInvalidMigrationFile" .
    moreover from assms(1) rm' have "Migrate Sum256 m = (t2, Some e)" by (simp add: Migrate_def)
    ultimately show ?thesis using log by (intro exI [of _ log] exI [of _ e]) simp
  next
    case (Inr items)
    with rm have "readMigrations Sum256 m [CallCreateMigrationsTable (migrationsTable m)] = (t2, Inr items)"
      by simp
    from gap_rejected [OF this assms(2)] assms(5) show ?thesis by contradiction
  qed
qed

theorem C4_gap_rejected_after_table_creation_witness:
  "CreateMigrationsTable (driver (newMigrator emptyStore gapFS)) []
       (migrationsTable (newMigrator emptyStore gapFS)) = None
   \<and> ReadDir (folder (newMigrator emptyStore gapFS)) ''.''
       = Inr [sqlFile ''1_x.sql'', sqlFile ''3_y.sql'']
   \<and> \<not> IsDir (sqlFile ''1_x.sql'') \<and> \<not> IsDir (sqlFile ''3_y.sql'')
   \<and> ReadFile (folder (newMigrator emptyStore gapFS)) (Name (sqlFile ''1_x.sql'')) = Inr ''SELECT 1;''
   \<and> ReadFile (folder (newMigrator emptyStore gapFS)) (Name (sqlFile ''3_y.sql'')) = Inr ''SELECT 1;''
   \<and> hasGap (map Name [sqlFile ''1_x.sql'', sqlFile ''3_y.sql''])
   \<and> (\<exists>log e. Migrate id (newMigrator emptyStore gapFS)
                  = (CallCreateMigrationsTable (migrationsTable (newMigrator emptyStore gapFS)) # log,
                     Some e)
                \<and> errorsIs e ErrInvalidMigrationFile
                \<and> list_all isRead log)"
proof -
  let ?m = "newMigrator emptyStore gapFS"
  let ?entries = "[sqlFile ''1_x.sql'', sqlFile ''3_y.sql'']"
  have h1: "CreateMigrationsTable (driver ?m) [] (migrationsTable ?m) = None" by simp
  have h2: "ReadDir (folder ?m) ''.'' = Inr ?entries" by (simp add: gapFS_def)
  have d: "\<not> IsDir (sqlFile ''1_x.sql'')" "\<not> IsDir (sqlFile ''3_y.sql'')"
    by (simp_all add: sqlFile_def)
  then have h3: "\<forall>x\<in>set ?entries. \<not> IsDir x" by simp
  have r: "ReadFile (folder ?m) (Name (sqlFile ''1_x.sql'')) = Inr ''SELECT 1;''"
    "ReadFile (folder ?m) (Name (sqlFile ''3_y.sql'')) = Inr ''SELECT 1;''"
    by (simp_all add: gapFS_def sqlFile_def)
  then have h4: "\<forall>x\<in>set ?entries. \<exists>data. ReadFile (folder ?m) (Name x) = Inr data" by simp
  note h5 = hasGap_gapFS
  from C4_gap_rejected_after_table_creation [OF h1 h2 h3 h4 h5, of id]
  have "\<exists>log e. Migrate id ?m = (CallCreateMigrationsTable (migrationsTable ?m) # log, Some e)
                \<and> errorsIs e ErrInvalidMigrationFile \<and> list_all isRead log"
    by (simp only: list_all_iff)
  with h1 h2 d r h5 show ?thesis by (intro conjI)
qed

text \<open>
  The run on a folder with the files \<open>1_x.sql\<close> and \<open>3_y.sql\<close>: the rejection comes after
  the \<open>CreateMigrationsTable\<close> call, which is a store operation.
\<close>

theorem C4_no_store_call_before_rejection_counterexample:
  "hasGap (map Name [sqlFile ''1_x.sql'', sqlFile ''3_y.sql''])
   \<and> ReadDir gapFS ''.'' = Inr [sqlFile ''1_x.sql'', sqlFile ''3_y.sql'']
   \<and> Migrate id (newMigrator emptyStore gapFS)
       = ([CallCreateMigrationsTable ''schema_migrations'', CallReadDir ''.'',
           CallReadFile ''1_x.sql'', CallReadFile ''3_y.sql''],
          Some (Errorf ''invalid migration file: migrations must have sequential versions (1_x.sql - 3_y.sql)''
                  ErrInvalidMigrationFile))
   \<and> CallCreateMigrationsTable ''schema_migrations''
       \<in> set (fst (Migrate id (newMigrator emptyStore gapFS)))"
proof -
  have "ReadDir gapFS ''.'' = Inr [sqlFile ''1_x.sql'', sqlFile ''3_y.sql'']"
    by (simp add: gapFS_def)
  moreover have "CallCreateMigrationsTable ''schema_migrations''
       \<in> set (fst (Migrate id (newMigrator emptyStore gapFS)))"
    by (simp add: Migrate_gapFS)
  ultimately show ?thesis using hasGap_gapFS Migrate_gapFS by (intro conjI)
qed

subsection \<open>Versions in file names\<close>

text \<open>
  C5. \<open>readMigrations\<close> means to reject a file name without an integer version
  (\<open>... must have an integer version\<close>), but \<open>fmt.Sscanf\<close> with \<open>%d\<close> reads the leading
  digits and leaves the rest of the prefix unread. The run on a folder whose only file is
  \<open>1abc_x.sql\<close>: the prefix before the first \<open>_\<close> is \<open>1abc\<close>, the scan gives version 1,
  and \<open>Migrate\<close> applies the file as migration 1.
\<close>

theorem C5_letters_after_digits_accepted:
  "stringsIndex ''1abc_x.sql'' ''_'' = Some 4
   \<and> Sscanf_d ''1abc'' = Inr 1
   \<and> Migrate Sum256 (newMigrator emptyStore lettersFS)
       = ([CallCreateMigrationsTable ''schema_migrations'', CallReadDir ''.'',
           CallReadFile ''1abc_x.sql'', CallSelectMigrations ''schema_migrations'',
           CallApplyMigrations ''schema_migrations'' False
             [\<lparr>Version = 1, Fname = ''1abc_x.sql'', AppliedAt = None,
               Statements = [''SELECT 1;''], Hash = Sprintf_x (Sum256 ''SELECT 1;'')\<rparr>]],
          None)"
  by code_simp

text \<open>
  The rest of the claim holds: in a folder that can be listed, holds no directory and
  whose files can all be read, a file name without \<open>_\<close>, one from which the scan reads no
  number, or one whose version is zero makes \<open>readMigrations\<close> fail with an error that is
  \<open>ErrInvalidMigrationFile\<close>.
\<close>

lemma bad_name_rejected:
  assumes "ReadDir (folder m) ''.'' = Inr entries"
    and "\<forall>x\<in>set entries. \<not> IsDir x"
    and "\<forall>x\<in>set entries. \<exists>data. ReadFile (folder m) (Name x) = Inr data"
    and "x \<in> set entries"
    and "versionOf (Name x) = None \<or> versionOf (Name x) = Some 0"
  shows "\<exists>t' e. readMigrations S m t = (t', Inl e) \<and> errorsIs e ErrInvalidMigrationFile"
proof -
  obtain t' r where rm: "readMigrations S m t = (t', r)" by (cases "readMigrations S m t")
  show ?thesis
  proof (cases r)
    case (Inl e)
    with rm have "readMigrations S m t = (t', Inl e)" by simp
    with readMigrations_Inl [OF this assms(1,2,3)] show ?thesis by blast
  next
    case (Inr items)
    with rm have ok: "readMigrations S m t = (t', Inr items)" by simp
    from readMigrations_Inr [OF ok] assms(1) obtain raw where
      raw: "map Fname raw = map Name entries" "\<forall>mg\<in>set raw. fromFile S (folder m) mg"
      by auto
    from assms(4) raw(1) obtain mg where "mg \<in> set raw" "Fname mg = Name x"
      by (metis (no_types, lifting) imageE image_eqI list.set_map)
    with raw(2) have "\<exists>v. versionOf (Name x) = Some v \<and> v \<noteq> 0"
      by (auto simp: fromFile_def split: option.splits)
    with assms(5) show ?thesis by auto
  qed
qed

subsection \<open>The content hash\<close>

text \<open>
  C6. Every migration \<open>readMigrations\<close> returns stems from one file of the folder. Its
  hash is the lower-case hexadecimal encoding, two characters per byte, of the digest of
  the file's content with the surrounding white space trimmed: of the whole trimmed
  content and not of its single statements, which are the pieces of that same trimmed
  content. The digest \<open>Sum256\<close> stands for SHA-256; the hash is a function of the trimmed
  bytes, so equal bytes give equal hashes. For the file \<open>1_demo.sql\<close> holding
  \<open>CREATE TABLE demo (id INT NOT NULL);\<close> the hash is the hexadecimal encoding of the
  digest of that very string. As an instance of the encoding, the bytes
  \<open>5b 57 bc 7e 00 ff\<close> give the text \<open>5b57bc7e00ff\<close>.
\<close>

theorem C6_hash_of_trimmed_content:
  assumes "readMigrations Sum256 m t = (t', Inr items)"
  shows "(\<forall>mg\<in>set items. \<exists>data body.
            ReadFile (folder m) (Fname mg) = Inr data
            \<and> isTrimOf body data
            \<and> isLowerHexOf (Hash mg) (Sum256 body)
            \<and> Statements mg = Split body
            \<and> body = TrimSpace data
            \<and> Hash mg = Sprintf_x (Sum256 (TrimSpace data))
            \<and> set (Hash mg) \<subseteq> set ''0123456789abcdef'')
         \<and> (\<exists>entries. ReadDir (folder m) ''.'' = Inr entries
               \<and> set (map Fname items) = set (map Name entries)
               \<and> length items = length entries)
         \<and> (\<exists>h. snd (readMigrations Sum256 (newMigrator d demoFS) u)
                   = Inr [\<lparr>Version = 1, Fname = ''1_demo.sql'', AppliedAt = None,
                           Statements = [''CREATE TABLE demo (id INT NOT NULL);''],
                           Hash = h\<rparr>]
                \<and> isLowerHexOf h (Sum256 ''CREATE TABLE demo (id INT NOT NULL);'')
                \<and> h = Sprintf_x (Sum256 ''CREATE TABLE demo (id INT NOT NULL);''))
         \<and> Sprintf_x [CHR 0x5b, CHR 0x57, CHR 0xbc, CHR 0x7e, CHR 0x00, CHR 0xff]
               = ''5b57bc7e00ff''"
proof -
  have one: "\<exists>data body. ReadFile (folder m) (Fname mg) = Inr data
            \<and> isTrimOf body data
            \<and> isLowerHexOf (Hash mg) (Sum256 body)
            \<and> Statements mg = Split body
            \<and> body = TrimSpace data
            \<and> Hash mg = Sprintf_x (Sum256 (TrimSpace data))
            \<and> set (Hash mg) \<subseteq> set ''0123456789abcdef''" if "mg \<in> set items" for mg
  proof -
    from readMigrations_member [OF assms that] have "fromFile Sum256 (folder m) mg" .
    from fromFile_data [OF this] obtain data where
      d: "ReadFile (folder m) (Fname mg) = Inr data" "Statements mg = Split (TrimSpace data)"
         "Hash mg = computeHash Sum256 (TrimSpace data)"
      by blast
    from d(3) have h: "Hash mg = Sprintf_x (Sum256 (TrimSpace data))"
      by (simp add: computeHash_def)
    from h Sprintf_x_range [of "Sum256 (TrimSpace data)"]
    have r: "set (Hash mg) \<subseteq> set ''0123456789abcdef''" by (simp only:)
    from h Sprintf_x_isLowerHexOf [of "Sum256 (TrimSpace data)"]
    have x: "isLowerHexOf (Hash mg) (Sum256 (TrimSpace data))" by (simp only:)
    have tr: "isTrimOf (TrimSpace data) data" by (rule TrimSpace_isTrimOf)
    show ?thesis
      by (intro exI [of _ data] exI [of _ "TrimSpace data"] conjI d(1) tr x d(2) refl h r)
  qed
  from readMigrations_Inr [OF assms] obtain entries raw where
    e: "ReadDir (folder m) ''.'' = Inr entries" "map Fname raw = map Name entries"
       "items = sortSlice raw"
    by blast
  have "set (map Fname items) = Fname ` set raw" by (simp add: e(3) sortSlice_set)
  also have "\<dots> = set (map Fname raw)" by simp
  finally have "set (map Fname items) = set (map Name entries)" by (simp add: e(2))
  moreover from e(2) have "length raw = length entries" by (rule map_eq_imp_length_eq)
  then have "length items = length entries" by (simp add: e(3) sortSlice_length)
  ultimately have two: "\<exists>entries. ReadDir (folder m) ''.'' = Inr entries
               \<and> set (map Fname items) = set (map Name entries)
               \<and> length items = length entries"
    using e(1) by blast
  have run: "snd (readMigrations Sum256 (newMigrator d demoFS) u)
               = Inr [\<lparr>Version = 1, Fname = ''1_demo.sql'', AppliedAt = None,
                       Statements = [''CREATE TABLE demo (id INT NOT NULL);''],
                       Hash = Sprintf_x (Sum256 ''CREATE TABLE demo (id INT NOT NULL);'')\<rparr>]"
    by (subst readMigrations_any_log) (simp add: readMigrations_demoFS demoItem_def demoStmt_def)
  have three: "\<exists>h. snd (readMigrations Sum256 (newMigrator d demoFS) u)
                   = Inr [\<lparr>Version = 1, Fname = ''1_demo.sql'', AppliedAt = None,
                           Statements = [''CREATE TABLE demo (id INT NOT NULL);''],
                           Hash = h\<rparr>]
                \<and> isLowerHexOf h (Sum256 ''CREATE TABLE demo (id INT NOT NULL);'')
                \<and> h = Sprintf_x (Sum256 ''CREATE TABLE demo (id INT NOT NULL);'')"
    by (intro exI [of _ "Sprintf_x (Sum256 ''CREATE TABLE demo (id INT NOT NULL);'')"]
          conjI run Sprintf_x_isLowerHexOf refl)
  have four: "Sprintf_x [CHR 0x5b, CHR 0x57, CHR 0xbc, CHR 0x7e, CHR 0x00, CHR 0xff]
               = ''5b57bc7e00ff''"
    by code_simp
  from one have "\<forall>mg\<in>set items. \<exists>data body.
            ReadFile (folder m) (Fname mg) = Inr data
            \<and> isTrimOf body data
            \<and> isLowerHexOf (Hash mg) (Sum256 body)
            \<and> Statements mg = Split body
            \<and> body = TrimSpace data
            \<and> Hash mg = Sprintf_x (Sum256 (TrimSpace data))
            \<and> set (Hash mg) \<subseteq> set ''0123456789abcdef''" by (rule ballI)
  then show ?thesis using two three four by (intro conjI)
qed

text \<open>
  The first file of the folder \<open>twoFS\<close> ends with a newline; with the identity as digest
  its hash is the hexadecimal text of the content without that newline, ending in \<open>3b\<close>,
  the semicolon.
\<close>

theorem C6_hash_of_trimmed_content_witness:
  "readMigrations id (newMigrator emptyStore twoFS) []
     = ([CallReadDir ''.'', CallReadFile ''1_init.sql'', CallReadFile ''2_users.sql''],
        Inr twoItems)
   \<and> (\<exists>data body. ReadFile twoFS (Fname (twoItems ! 0)) = Inr data
          \<and> isTrimOf body data
          \<and> isLowerHexOf (Hash (twoItems ! 0)) (id body)
          \<and> Statements (twoItems ! 0) = Split body)
   \<and> ReadFile twoFS (Fname (twoItems ! 0))
        = Inr (''CREATE TABLE a (id INT);'' @ [CHR 0x0A] @ ''-- migrate:next'' @ [CHR 0x0A]
               @ ''CREATE TABLE b (id INT);'' @ [CHR 0x0A])
   \<and> Hash (twoItems ! 0)
        = ''435245415445205441424c4520612028696420494e54293b0a2d2d206d6967726174653a6e6578740a435245415445205441424c4520622028696420494e54293b''
   \<and> set (Hash (twoItems ! 0)) \<subseteq> set ''0123456789abcdef''"
proof -
  have h: "readMigrations id (newMigrator emptyStore twoFS) []
     = ([CallReadDir ''.'', CallReadFile ''1_init.sql'', CallReadFile ''2_users.sql''],
        Inr twoItems)"
    by (rule readMigrations_twoFS)
  have mem: "twoItems ! 0 \<in> set twoItems" by (simp add: twoItems_def)
  have f: "folder (newMigrator emptyStore twoFS) = twoFS" by (simp add: newMigrator_def)
  from C6_hash_of_trimmed_content [OF h, THEN conjunct1, rule_format, OF mem]
  obtain data body where
    d: "ReadFile (folder (newMigrator emptyStore twoFS)) (Fname (twoItems ! 0)) = Inr data"
       "isTrimOf body data"
       "isLowerHexOf (Hash (twoItems ! 0)) (id body)"
       "Statements (twoItems ! 0) = Split body"
       "set (Hash (twoItems ! 0)) \<subseteq> set ''0123456789abcdef''"
    by (elim exE conjE)
  from d(1) have d1: "ReadFile twoFS (Fname (twoItems ! 0)) = Inr data" by (simp only: f)
  have ex: "\<exists>data body. ReadFile twoFS (Fname (twoItems ! 0)) = Inr data
          \<and> isTrimOf body data
          \<and> isLowerHexOf (Hash (twoItems ! 0)) (id body)
          \<and> Statements (twoItems ! 0) = Split body"
    by (intro exI [of _ data] exI [of _ body] conjI d1 d(2) d(3) d(4))
  have rd: "ReadFile twoFS (Fname (twoItems ! 0))
        = Inr (''CREATE TABLE a (id INT);'' @ [CHR 0x0A] @ ''-- migrate:next'' @ [CHR 0x0A]
               @ ''CREATE TABLE b (id INT);'' @ [CHR 0x0A])"
    by (simp add: twoItems_def twoFS_def)
  have lit: "Hash (twoItems ! 0)
        = ''435245415445205441424c4520612028696420494e54293b0a2d2d206d6967726174653a6e6578740a435245415445205441424c4520622028696420494e54293b''"
    by code_simp
  show ?thesis by (intro conjI h ex rd lit d(5))
qed

subsection \<open>Validation comes before application\<close>

text \<open>
  C7. Let the consistency check pass with migrations left to apply. The log of \<open>Migrate\<close>
  then continues after \<open>SelectMigrations\<close> with a stretch of validation calls, each
  \<open>ValidateQuery\<close> call preceded by a \<open>Dialect\<close> call whose answer it is given, and one of
  two things holds. Either no problem was reported: with a validator configured the
  validated queries are the statements of all migrations of the batch, one call each and
  in order (without a validator there is no call), and only then follows the single
  \<open>ApplyMigrations\<close> call, whose result \<open>Migrate\<close> returns. Or the validator reported a
  problem: \<open>Migrate\<close> returns an error that is \<open>ErrInvalidQuery\<close>, only statements of the batch
  were validated, and the log holds no \<open>ApplyMigrations\<close> call.
\<close>

theorem C7_validation_precedes_application:
  assumes "CreateMigrationsTable (driver m) [] (migrationsTable m) = None"
    and "readMigrations Sum256 m [CallCreateMigrationsTable (migrationsTable m)] = (t2, Inr loc)"
    and "SelectMigrations (driver m) t2 (migrationsTable m) = Inr applied"
    and "length applied \<le> length loc"
    and "\<forall>i<length applied. Version (applied ! i) = Version (loc ! i)
                             \<and> Hash (applied ! i) = Hash (loc ! i)"
    and "drop (length applied) loc \<noteq> []"
  shows "\<exists>cs. dialectPairs cs \<and>
           ((problemFree cs
             \<and> queriesOf cs = (case qvalidator m of
                                 None \<Rightarrow> []
                               | Some qv \<Rightarrow> concat (map Statements (drop (length applied) loc)))
             \<and> Migrate Sum256 m =
                 (t2 @ [CallSelectMigrations (migrationsTable m)] @ cs
                    @ [CallApplyMigrations (migrationsTable m) (inTransaction m)
                         (drop (length applied) loc)],
                  ApplyMigrations (driver m) (t2 @ [CallSelectMigrations (migrationsTable m)] @ cs)
                    (migrationsTable m) (inTransaction m) (drop (length applied) loc)))
            \<or> (\<not> problemFree cs \<and> qvalidator m \<noteq> None
                \<and> prefix (queriesOf cs) (concat (map Statements (drop (length applied) loc)))
                \<and> (\<exists>err. Migrate Sum256 m
                            = (t2 @ [CallSelectMigrations (migrationsTable m)] @ cs, Some err)
                          \<and> errorsIs err ErrInvalidQuery)
                \<and> \<not> (\<exists>c\<in>set (fst (Migrate Sum256 m)). isApply c)))"
proof -
  let ?t3 = "t2 @ [CallSelectMigrations (migrationsTable m)]"
  let ?toApply = "drop (length applied) loc"
  from assms(4,5) have cp: "consistentPrefix applied loc" by (simp add: consistentPrefix_def)
  note before = no_apply_before_validation [OF assms(2)]
  from Migrate_validation [OF assms(1-3) cp assms(6)] obtain cs r where
    v: "validated m (concat (map Statements ?toApply)) cs r" and
    mg: "Migrate Sum256 m =
           (case r of
              None \<Rightarrow>
                (t2 @ [CallSelectMigrations (migrationsTable m)] @ cs
                    @ [CallApplyMigrations (migrationsTable m) (inTransaction m) ?toApply],
                 ApplyMigrations (driver m) (t2 @ [CallSelectMigrations (migrationsTable m)] @ cs)
                   (migrationsTable m) (inTransaction m) ?toApply)
            | Some err \<Rightarrow> (t2 @ [CallSelectMigrations (migrationsTable m)] @ cs, Some err))"
    by blast
  from v have dp: "dialectPairs cs" by (simp add: validated_def)
  from validation_no_apply [OF dp] before
  have clean: "\<not> (\<exists>c\<in>set (?t3 @ cs). isApply c)" by auto
  show ?thesis
  proof (cases r)
    case None
    with v mg dp show ?thesis
      by (intro exI [of _ cs]) (simp add: validated_def)
  next
    case (Some err)
    with mg have res: "Migrate Sum256 m = (?t3 @ cs, Some err)" by simp
    with clean have "\<not> (\<exists>c\<in>set (fst (Migrate Sum256 m)). isApply c)" by simp
    with v Some res dp show ?thesis
      by (intro exI [of _ cs]) (simp add: validated_def)
  qed
qed

theorem C7_validation_precedes_application_witness:
  "CreateMigrationsTable (driver mStrict) [] (migrationsTable mStrict) = None
   \<and> readMigrations id mStrict [CallCreateMigrationsTable (migrationsTable mStrict)]
       = (twoLog, Inr twoItems)
   \<and> SelectMigrations (driver mStrict) twoLog (migrationsTable mStrict) = Inr []
   \<and> drop (length ([] :: Migration list)) twoItems \<noteq> []
   \<and> Migrate id mStrict
       = (twoLog @ [CallSelectMigrations ''schema_migrations'',
            CallDialect ''sqlite'',
            CallValidateQuery ''sqlite'' (''CREATE TABLE a (id INT);'' @ [CHR 0x0A]) None,
            CallDialect ''sqlite'',
            CallValidateQuery ''sqlite'' ([CHR 0x0A] @ ''CREATE TABLE b (id INT);'') None,
            CallDialect ''sqlite'',
            CallValidateQuery ''sqlite'' ''CREATE TABLE users (id INT);'' (Some (Foreign ''L001''))],
          Some (Errorf ''2_users.sql: invalid query L001'' ErrInvalidQuery))
   \<and> (\<exists>cs. dialectPairs cs \<and> \<not> problemFree cs
          \<and> prefix (queriesOf cs) (concat (map Statements twoItems))
          \<and> fst (Migrate id mStrict) = twoLog @ [CallSelectMigrations ''schema_migrations''] @ cs)"
proof -
  have h1: "CreateMigrationsTable (driver mStrict) [] (migrationsTable mStrict) = None"
    by simp
  have h2: "readMigrations id mStrict [CallCreateMigrationsTable (migrationsTable mStrict)]
       = (twoLog, Inr twoItems)"
    by (simp add: readMigrations_mStrict)
  have h3: "SelectMigrations (driver mStrict) twoLog (migrationsTable mStrict) = Inr []"
    by simp
  have h4: "length ([] :: Migration list) \<le> length twoItems" by simp
  have h5: "\<forall>i<length ([] :: Migration list).
              Version ([] ! i) = Version (twoItems ! i) \<and> Hash ([] ! i) = Hash (twoItems ! i)"
    by simp
  have h6: "drop (length ([] :: Migration list)) twoItems \<noteq> []" by (simp add: twoItems_def)
  have run: "Migrate id mStrict
       = (twoLog @ [CallSelectMigrations ''schema_migrations'',
            CallDialect ''sqlite'',
            CallValidateQuery ''sqlite'' (''CREATE TABLE a (id INT);'' @ [CHR 0x0A]) None,
            CallDialect ''sqlite'',
            CallValidateQuery ''sqlite'' ([CHR 0x0A] @ ''CREATE TABLE b (id INT);'') None,
            CallDialect ''sqlite'',
            CallValidateQuery ''sqlite'' ''CREATE TABLE users (id INT);'' (Some (Foreign ''L001''))],
          Some (Errorf ''2_users.sql: invalid query L001'' ErrInvalidQuery))"
    by code_simp
  then have failed: "snd (Migrate id mStrict) \<noteq> ApplyMigrations (driver mStrict) u tbl b batch"
    for u tbl b batch
    by (simp add: emptyStore_def)
  from C7_validation_precedes_application [OF h1 h2 h3 h4 h5 h6] obtain cs where
    cs: "dialectPairs cs"
      "(problemFree cs
         \<and> queriesOf cs = (case qvalidator mStrict of
                             None \<Rightarrow> []
                           | Some qv \<Rightarrow> concat (map Statements (drop (length ([] :: Migration list)) twoItems)))
         \<and> Migrate id mStrict =
             (twoLog @ [CallSelectMigrations (migrationsTable mStrict)] @ cs
                @ [CallApplyMigrations (migrationsTable mStrict) (inTransaction mStrict)
                     (drop (length ([] :: Migration list)) twoItems)],
              ApplyMigrations (driver mStrict) (twoLog @ [CallSelectMigrations (migrationsTable mStrict)] @ cs)
                (migrationsTable mStrict) (inTransaction mStrict) (drop (length ([] :: Migration list)) twoItems)))
        \<or> (\<not> problemFree cs \<and> qvalidator mStrict \<noteq> None
            \<and> prefix (queriesOf cs) (concat (map Statements (drop (length ([] :: Migration list)) twoItems)))
            \<and> (\<exists>err. Migrate id mStrict
                        = (twoLog @ [CallSelectMigrations (migrationsTable mStrict)] @ cs, Some err)
                      \<and> errorsIs err ErrInvalidQuery)
            \<and> \<not> (\<exists>c\<in>set (fst (Migrate id mStrict)). isApply c))"
    by blast
  from cs(2) have second: "\<not> problemFree cs
      \<and> prefix (queriesOf cs) (concat (map Statements twoItems))
      \<and> fst (Migrate id mStrict) = twoLog @ [CallSelectMigrations ''schema_migrations''] @ cs"
  proof
    assume "problemFree cs
         \<and> queriesOf cs = (case qvalidator mStrict of
                             None \<Rightarrow> []
                           | Some qv \<Rightarrow> concat (map Statements (drop (length ([] :: Migration list)) twoItems)))
         \<and> Migrate id mStrict =
             (twoLog @ [CallSelectMigrations (migrationsTable mStrict)] @ cs
                @ [CallApplyMigrations (migrationsTable mStrict) (inTransaction mStrict)
                     (drop (length ([] :: Migration list)) twoItems)],
              ApplyMigrations (driver mStrict) (twoLog @ [CallSelectMigrations (migrationsTable mStrict)] @ cs)
                (migrationsTable mStrict) (inTransaction mStrict) (drop (length ([] :: Migration list)) twoItems))"
    then have "snd (Migrate id mStrict)
        = ApplyMigrations (driver mStrict) (twoLog @ [CallSelectMigrations (migrationsTable mStrict)] @ cs)
                (migrationsTable mStrict) (inTransaction mStrict) (drop (length ([] :: Migration list)) twoItems)"
      by simp
    with failed show ?thesis by blast
  next
    assume "\<not> problemFree cs \<and> qvalidator mStrict \<noteq> None
            \<and> prefix (queriesOf cs) (concat (map Statements (drop (length ([] :: Migration list)) twoItems)))
            \<and> (\<exists>err. Migrate id mStrict
                        = (twoLog @ [CallSelectMigrations (migrationsTable mStrict)] @ cs, Some err)
                      \<and> errorsIs err ErrInvalidQuery)
            \<and> \<not> (\<exists>c\<in>set (fst (Migrate id mStrict)). isApply c)"
    then show ?thesis by auto
  qed
  with cs(1) have "\<exists>cs. dialectPairs cs \<and> \<not> problemFree cs
          \<and> prefix (queriesOf cs) (concat (map Statements twoItems))
          \<and> fst (Migrate id mStrict) = twoLog @ [CallSelectMigrations ''schema_migrations''] @ cs"
    by blast
  with h1 h2 h3 h6 run show ?thesis by (intro conjI)
qed

subsection \<open>Failure of the table creation\<close>

text \<open>
  C8. Whatever error the store's \<open>CreateMigrationsTable\<close> returns, \<open>Migrate\<close> returns
  that very error value, and the log of the run holds that one call and nothing else: no
  call on the file system, the store or the validator follows.
\<close>

theorem C8_create_table_error_unchanged:
  assumes "CreateMigrationsTable (driver m) [] (migrationsTable m) = Some err"
  shows "Migrate Sum256 m = ([CallCreateMigrationsTable (migrationsTable m)], Some err)"
  using assms by (simp add: Migrate_def)

theorem C8_create_table_error_unchanged_witness:
  "CreateMigrationsTable (driver (newMigrator brokenStore demoFS)) []
       (migrationsTable (newMigrator brokenStore demoFS)) = Some (Foreign ''error'')
   \<and> Migrate id (newMigrator brokenStore demoFS)
       = ([CallCreateMigrationsTable ''schema_migrations''], Some (Foreign ''error''))"
proof -
  have h: "CreateMigrationsTable (driver (newMigrator brokenStore demoFS)) []
       (migrationsTable (newMigrator brokenStore demoFS)) = Some (Foreign ''error'')"
    by (simp add: newMigrator_def brokenStore_def emptyStore_def)
  from C8_create_table_error_unchanged [OF h, of id] h show ?thesis
    by (simp add: newMigrator_def)
qed
subsection \<open>Versions of the local migrations\<close>

text \<open>
  C9. In every list that \<open>readMigrations\<close> returns, the element at index \<open>i\<close> has version
  \<open>i + 1\<close>: the versions are 1, 2, 3, ... without gap or duplicate, hence all positive,
  although the scan of a file name alone accepts a negative number such as \<open>-5\<close>.
\<close>

theorem C9_versions_one_to_n:
  assumes "readMigrations Sum256 m t = (t', Inr items)"
  shows "(\<forall>i<length items. sint (Version (items ! i)) = int i + 1)
         \<and> distinct (map Version items)
         \<and> versionOf ''-5_x.sql'' = Some (- 5)"
proof -
  note nth = readMigrations_versions [OF assms]
  have "distinct (map Version items)"
    unfolding distinct_conv_nth
  proof (intro allI impI)
    fix i j
    assume "i < length (map Version items)" "j < length (map Version items)" "i \<noteq> j"
    then have "sint (Version (items ! i)) \<noteq> sint (Version (items ! j))"
      using nth by simp
    with \<open>i < length (map Version items)\<close> \<open>j < length (map Version items)\<close>
    show "map Version items ! i \<noteq> map Version items ! j" by auto
  qed
  moreover have "versionOf ''-5_x.sql'' = Some (- 5)" by code_simp
  ultimately show ?thesis using nth by blast
qed

theorem C9_versions_one_to_n_witness:
  "readMigrations id (newMigrator emptyStore twoFS) []
     = ([CallReadDir ''.'', CallReadFile ''1_init.sql'', CallReadFile ''2_users.sql''],
        Inr twoItems)
   \<and> sint (Version (twoItems ! 0)) = 1 \<and> sint (Version (twoItems ! 1)) = 2
   \<and> distinct (map Version twoItems)"
proof -
  have h: "readMigrations id (newMigrator emptyStore twoFS) []
     = ([CallReadDir ''.'', CallReadFile ''1_init.sql'', CallReadFile ''2_users.sql''],
        Inr twoItems)"
    by (rule readMigrations_twoFS)
  have len: "length twoItems = 2" by (simp add: twoItems_def)
  from C9_versions_one_to_n [OF h] len
  have "\<forall>i<2. sint (Version (twoItems ! i)) = int i + 1" "distinct (map Version twoItems)"
    by simp_all
  then have "sint (Version (twoItems ! 0)) = 1" "sint (Version (twoItems ! 1)) = 2"
    "distinct (map Version twoItems)"
    by simp_all
  with h show ?thesis by simp
qed

subsection \<open>Statements of a migration\<close>

text \<open>
  C10. Every migration \<open>readMigrations\<close> returns has at least one statement, since
  splitting any content, the empty one too, gives at least one piece. So \<open>validate\<close>,
  under any configuration and log, never reports such a migration as an invalid (empty)
  migration file; and a file whose content is white space only has exactly one statement,
  the empty string.
\<close>

theorem C10_statements_never_empty:
  assumes "readMigrations Sum256 m t = (t', Inr items)" and "mg \<in> set items"
  shows "1 \<le> length (Statements mg)
         \<and> (\<forall>m' u. \<not> (\<exists>e. snd (validate m' mg u) = Some e \<and> errorsIs e ErrInvalidMigrationFile))
         \<and> (\<forall>ws. ReadFile (folder m) (Fname mg) = Inr (concat ws) \<and> set ws \<subseteq> set spaceRunes
                \<longrightarrow> Statements mg = [[]])"
proof -
  from readMigrations_member [OF assms] have ff: "fromFile Sum256 (folder m) mg" .
  from fromFile_data [OF ff] obtain data where
    data: "ReadFile (folder m) (Fname mg) = Inr data" and
    st: "Statements mg = Split (TrimSpace data)"
    by blast
  from st have ne: "Statements mg \<noteq> []" by (simp add: Split_not_Nil)
  then have len: "1 \<le> length (Statements mg)" by (cases "Statements mg") simp_all
  have nov: "\<not> (\<exists>e. snd (validate m' mg u) = Some e \<and> errorsIs e ErrInvalidMigrationFile)" for m' u
  proof
    assume "\<exists>e. snd (validate m' mg u) = Some e \<and> errorsIs e ErrInvalidMigrationFile"
    then obtain e where e: "snd (validate m' mg u) = Some e" "errorsIs e ErrInvalidMigrationFile"
      by blast
    then obtain u' where "validate m' mg u = (u', Some e)" by (cases "validate m' mg u") simp
    from validate_Some [OF this ne] obtain msg where "e = Errorf msg ErrInvalidQuery" by blast
    with e(2) show False by simp
  qed
  have ws: "Statements mg = [[]]"
    if "ReadFile (folder m) (Fname mg) = Inr (concat ws) \<and> set ws \<subseteq> set spaceRunes" for ws
  proof -
    from that data have "data = concat ws" "set ws \<subseteq> set spaceRunes" by simp_all
    then have "TrimSpace data = []" by (simp add: TrimSpace_spaces)
    with st show ?thesis by (simp add: Split_Nil)
  qed
  from len nov ws show ?thesis by blast
qed

theorem C10_statements_never_empty_witness:
  "readMigrations id (newMigrator emptyStore blankFS) []
     = ([CallReadDir ''.'', CallReadFile ''1_blank.sql''], Inr [blankItem])
   \<and> blankItem \<in> set [blankItem]
   \<and> 1 \<le> length (Statements blankItem)
   \<and> \<not> (\<exists>e. snd (validate (newMigrator emptyStore blankFS) blankItem []) = Some e
              \<and> errorsIs e ErrInvalidMigrationFile)
   \<and> ReadFile (folder (newMigrator emptyStore blankFS)) (Fname blankItem)
        = Inr (concat [[CHR 0x20], [CHR 0x20], [CHR 0x0A]])
   \<and> set [[CHR 0x20], [CHR 0x20], [CHR 0x0A]] \<subseteq> set spaceRunes
   \<and> Statements blankItem = [[]]"
proof -
  have h: "readMigrations id (newMigrator emptyStore blankFS) []
     = ([CallReadDir ''.'', CallReadFile ''1_blank.sql''], Inr [blankItem])"
    by (rule readMigrations_blankFS)
  have mem: "blankItem \<in> set [blankItem]" by simp
  have rd: "ReadFile (folder (newMigrator emptyStore blankFS)) (Fname blankItem)
        = Inr (concat [[CHR 0x20], [CHR 0x20], [CHR 0x0A]])"
    by (simp add: newMigrator_def blankFS_def blankItem_def)
  have sp: "set [[CHR 0x20], [CHR 0x20], [CHR 0x0A]] \<subseteq> set spaceRunes"
    by (simp add: spaceRunes_def)
  from C10_statements_never_empty [OF h mem] have
    a: "1 \<le> length (Statements blankItem)" and
    b: "\<forall>m' u. \<not> (\<exists>e. snd (validate m' blankItem u) = Some e
              \<and> errorsIs e ErrInvalidMigrationFile)" and
    c: "\<forall>ws. ReadFile (folder (newMigrator emptyStore blankFS)) (Fname blankItem) = Inr (concat ws)
              \<and> set ws \<subseteq> set spaceRunes \<longrightarrow> Statements blankItem = [[]]"
    by simp_all
  from b have b': "\<not> (\<exists>e. snd (validate (newMigrator emptyStore blankFS) blankItem []) = Some e
              \<and> errorsIs e ErrInvalidMigrationFile)"
    by (rule allE) (erule allE)
  from c [rule_format, OF conjI [OF rd sp]] have c': "Statements blankItem = [[]]" .
  show ?thesis
    by (intro conjI h mem a b' rd sp c')
qed


end
